theory Spec2Isabelle
  imports Complex_Main "HOL-Library.AList"
begin

section \<open>Data model\<close>

text \<open>
  The six cell classes of the OPB-82 scheme (the keys of the source's \<open>COLORS\<close> dictionary)
  and the Python exceptions the modelled code can raise.
\<close>

datatype cell_type = AZ | TK | RR | AR | LAR | USP

datatype error = ValueError | KeyError | IndexError | ZeroDivisionError

text \<open>
  A pixel and a reference colour are tuples of integers; a tuple is a list here, since the
  source takes its length and zips two of them.  Python's integers are unbounded, hence
  \<open>int\<close>.  Python's floats are modelled as reals: the divisions and the square root are
  exact, and rounding is outside the model.
\<close>

type_synonym color = "int list"

definition COLORS :: "(cell_type \<times> color) list" where
  "COLORS =
    [(AZ, [0xDE, 0x1A, 0x03]),
     (TK, [0xA5, 0xB5, 0xA4]),
     (RR, [0xEB, 0xEB, 0xEB]),
     (AR, [0x01, 0xB1, 0x91]),
     (LAR, [0x00, 0x67, 0xCE]),
     (USP, [0xFE, 0xD8, 0x01])]"

definition COLOR_TOLERANCE :: int where
  "COLOR_TOLERANCE = 25"

text \<open>
  An image as the source sees it: \<open>img.size\<close> and the pixel access object of \<open>img.load()\<close>.
  Reading a pixel outside the extent is an \<open>IndexError\<close>.
\<close>

record dims =
  width :: int
  height :: int

record image = dims +
  pixels :: "int \<times> int \<Rightarrow> color"

definition pixel_access :: "image \<Rightarrow> int \<Rightarrow> int \<Rightarrow> error + color" where
  "pixel_access img x y =
     (if 0 \<le> x \<and> x < width img \<and> 0 \<le> y \<and> y < height img then Inr (pixels img (x, y))
      else Inl IndexError)"

text \<open>A component as \<open>flood_fill\<close> returns it: \<open>(center_x, center_y, area)\<close>.\<close>

type_synonym component = "real \<times> real \<times> int"

text \<open>
  A cell before normalization is the five-key dictionary built in \<open>parse_scheme\<close>; a
  normalized cell has the two \<open>original_grid_*\<close> keys as well.  \<open>normalize_coordinates\<close>
  reads only the five keys, so it accepts both.
\<close>

record raw_cell =
  grid_x :: int
  grid_y :: int
  pixel_x :: int
  pixel_y :: int
  area :: int

record cell = raw_cell +
  original_grid_x :: int
  original_grid_y :: int

record metadata_rec =
  image_size :: dims
  meta_cell_size :: int
  total_cells :: int
  grid_size :: dims

record output_rec =
  metadata :: metadata_rec
  out_cells :: "(cell_type \<times> cell list) list"
  positions_by_type :: "(cell_type \<times> string list) list"

section \<open>Color matcher\<close>

definition color_distance :: "color \<Rightarrow> color \<Rightarrow> real" where
  "color_distance c1 c2 = sqrt (real_of_int (sum_list (map (\<lambda>(a, b). (a - b) ^ 2) (zip c1 c2))))"

text \<open>The \<open>for\<close> loop of \<open>identify_color\<close> over the items of a colour table, in their order.\<close>

fun identify_color_loop :: "(cell_type \<times> color) list \<Rightarrow> color \<Rightarrow> cell_type option" where
  "identify_color_loop [] pixel = None"
| "identify_color_loop ((cell_type, color) # rest) pixel =
     (if color_distance pixel color < real_of_int COLOR_TOLERANCE then Some cell_type
      else identify_color_loop rest pixel)"

definition identify_color :: "color \<Rightarrow> cell_type option" where
  "identify_color pixel =
     identify_color_loop COLORS (if length pixel = 4 then take 3 pixel else pixel)"

section \<open>Blob detector\<close>

definition matches_color :: "color \<Rightarrow> int \<Rightarrow> color \<Rightarrow> bool" where
  "matches_color target_color tolerance pixel =
     (color_distance (if length pixel = 4 then take 3 pixel else pixel) target_color
        < real_of_int tolerance)"

text \<open>
  The \<open>while queue\<close> loop of \<open>flood_fill\<close>.  The state is the queue, the \<open>visited\<close> set shared
  by all fills of one detection pass, and \<open>component_pixels\<close>.
\<close>

function flood_fill_loop ::
  "image \<Rightarrow> color \<Rightarrow> int \<Rightarrow> (int \<times> int) list \<Rightarrow> (int \<times> int) set \<Rightarrow> (int \<times> int) list
     \<Rightarrow> error + ((int \<times> int) set \<times> (int \<times> int) list)" where
  "flood_fill_loop img target_color tolerance [] visited component_pixels =
     Inr (visited, component_pixels)"
| "flood_fill_loop img target_color tolerance ((x, y) # queue) visited component_pixels =
     (if (x, y) \<in> visited then
        flood_fill_loop img target_color tolerance queue visited component_pixels
      else if x < 0 \<or> x \<ge> width img \<or> y < 0 \<or> y \<ge> height img then
        flood_fill_loop img target_color tolerance queue visited component_pixels
      else
        (case pixel_access img x y of
           Inl e \<Rightarrow> Inl e
         | Inr pixel \<Rightarrow>
             if \<not> matches_color target_color tolerance pixel then
               flood_fill_loop img target_color tolerance queue visited component_pixels
             else
               flood_fill_loop img target_color tolerance
                 (queue @ [(x + 1, y), (x - 1, y), (x, y + 1), (x, y - 1)])
                 (insert (x, y) visited)
                 (component_pixels @ [(x, y)])))"
  by pat_completeness auto
termination
proof (relation "measure (\<lambda>(img, target_color, tolerance, queue, visited, component_pixels).
    4 * card (({0..<width img} \<times> {0..<height img}) - visited) + length queue)")
  show "wf (measure (\<lambda>(img, target_color, tolerance, queue, visited, component_pixels).
    4 * card (({0..<width img} \<times> {0..<height img}) - visited) + length queue))"
    by simp
next
  fix img :: image and target_color :: color and tolerance :: int and x y :: int
    and queue :: "(int \<times> int) list" and visited :: "(int \<times> int) set"
    and component_pixels :: "(int \<times> int) list" and x2 :: color
  assume nv: "(x, y) \<notin> visited"
    and inb: "\<not> (x < 0 \<or> width img \<le> x \<or> y < 0 \<or> height img \<le> y)"
  let ?A = "({0..<width img} \<times> {0..<height img}) - visited"
  have fin: "finite ?A" by simp
  have mem: "(x, y) \<in> ?A" using nv inb by simp
  have eq: "({0..<width img} \<times> {0..<height img}) - insert (x, y) visited = ?A - {(x, y)}"
    by blast
  have "card (?A - {(x, y)}) < card ?A"
    using fin mem by (rule card_Diff1_less)
  then have "card (({0..<width img} \<times> {0..<height img}) - insert (x, y) visited) < card ?A"
    by (simp only: eq)
  then show "((img, target_color, tolerance,
           queue @ [(x + 1, y), (x - 1, y), (x, y + 1), (x, y - 1)], insert (x, y) visited,
           component_pixels @ [(x, y)]),
          img, target_color, tolerance, (x, y) # queue, visited, component_pixels)
         \<in> measure (\<lambda>(img, target_color, tolerance, queue, visited, component_pixels).
    4 * card (({0..<width img} \<times> {0..<height img}) - visited) + length queue)"
    by simp
qed simp_all

declare flood_fill_loop.simps [simp del]

text \<open>
  \<open>flood_fill\<close> returns a component or \<open>None\<close>, and the updated \<open>visited\<close> set.
\<close>

definition flood_fill ::
  "image \<Rightarrow> color \<Rightarrow> int \<Rightarrow> (int \<times> int) set \<Rightarrow> int \<Rightarrow> int
     \<Rightarrow> error + ((int \<times> int) set \<times> component option)" where
  "flood_fill img target_color tolerance visited start_x start_y =
     (if (start_x, start_y) \<in> visited then Inr (visited, None)
      else
        (case pixel_access img start_x start_y of
           Inl e \<Rightarrow> Inl e
         | Inr pixel \<Rightarrow>
             if \<not> matches_color target_color tolerance pixel then Inr (visited, None)
             else
               (case flood_fill_loop img target_color tolerance [(start_x, start_y)] visited [] of
                  Inl e \<Rightarrow> Inl e
                | Inr (visited', component_pixels) \<Rightarrow>
                    if component_pixels \<noteq> [] then
                      (let sum_x = sum_list (map fst component_pixels);
                           sum_y = sum_list (map snd component_pixels);
                           center_x = real_of_int sum_x / real (length component_pixels);
                           center_y = real_of_int sum_y / real (length component_pixels)
                       in Inr (visited', Some (center_x, center_y, int (length component_pixels))))
                    else Inr (visited', None))))"

text \<open>The raster scan: the coordinates in the order the two nested \<open>for\<close> statements visit them.\<close>

definition raster :: "image \<Rightarrow> (int \<times> int) list" where
  "raster img = concat (map (\<lambda>y. map (\<lambda>x. (x, y)) [0..width img - 1]) [0..height img - 1])"

fun scan ::
  "image \<Rightarrow> color \<Rightarrow> int \<Rightarrow> (int \<times> int) list \<Rightarrow> (int \<times> int) set \<Rightarrow> component list
     \<Rightarrow> error + ((int \<times> int) set \<times> component list)" where
  "scan img target_color tolerance [] visited components = Inr (visited, components)"
| "scan img target_color tolerance ((x, y) # rest) visited components =
     (if (x, y) \<notin> visited then
        (case flood_fill img target_color tolerance visited x y of
           Inl e \<Rightarrow> Inl e
         | Inr (visited', None) \<Rightarrow> scan img target_color tolerance rest visited' components
         | Inr (visited', Some component) \<Rightarrow>
             scan img target_color tolerance rest visited' (components @ [component]))
      else scan img target_color tolerance rest visited components)"

definition find_connected_components :: "image \<Rightarrow> color \<Rightarrow> int \<Rightarrow> error + component list" where
  "find_connected_components img target_color tolerance =
     (case scan img target_color tolerance (raster img) {} [] of
        Inl e \<Rightarrow> Inl e
      | Inr (visited, components) \<Rightarrow> Inr components)"

section \<open>Grid quantizer and area filter\<close>

text \<open>\<open>int(f)\<close> on a float truncates toward zero; \<open>f / n\<close> raises when \<open>n\<close> is zero.\<close>

definition py_int :: "real \<Rightarrow> int" where
  "py_int f = (if 0 \<le> f then \<lfloor>f\<rfloor> else \<lceil>f\<rceil>)"

definition truediv :: "real \<Rightarrow> int \<Rightarrow> error + real" where
  "truediv f n = (if n = 0 then Inl ZeroDivisionError else Inr (f / real_of_int n))"

text \<open>
  The inner loop of \<open>parse_scheme\<close> over the components of one class: a component that passes
  the area filter is appended to \<open>cells[cell_type]\<close>.  The dictionary \<open>cells\<close> is an association
  list in insertion order; \<open>AList.update\<close> keeps the position of an existing key.
\<close>

fun append_cells ::
  "int \<Rightarrow> int \<Rightarrow> cell_type \<Rightarrow> component list \<Rightarrow> (cell_type \<times> raw_cell list) list
     \<Rightarrow> error + (cell_type \<times> raw_cell list) list" where
  "append_cells cell_size min_area cell_type [] cells = Inr cells"
| "append_cells cell_size min_area cell_type ((center_x, center_y, component_area) # rest) cells =
     (if component_area \<ge> min_area then
        (case truediv center_x cell_size of
           Inl e \<Rightarrow> Inl e
         | Inr qx \<Rightarrow>
             (case truediv center_y cell_size of
                Inl e \<Rightarrow> Inl e
              | Inr qy \<Rightarrow>
                  (case map_of cells cell_type of
                     None \<Rightarrow> Inl KeyError
                   | Some cell_list \<Rightarrow>
                       append_cells cell_size min_area cell_type rest
                         (AList.update cell_type
                            (cell_list @
                               [\<lparr>grid_x = py_int qx, grid_y = py_int qy,
                                 pixel_x = py_int center_x, pixel_y = py_int center_y,
                                 area = component_area\<rparr>])
                            cells))))
      else append_cells cell_size min_area cell_type rest cells)"

text \<open>The outer loop of \<open>parse_scheme\<close> over the items of the colour table.\<close>

fun detect_cells ::
  "image \<Rightarrow> int \<Rightarrow> int \<Rightarrow> (cell_type \<times> color) list \<Rightarrow> (cell_type \<times> raw_cell list) list
     \<Rightarrow> error + (cell_type \<times> raw_cell list) list" where
  "detect_cells img cell_size min_area [] cells = Inr cells"
| "detect_cells img cell_size min_area ((cell_type, color) # rest) cells =
     (case find_connected_components img color COLOR_TOLERANCE of
        Inl e \<Rightarrow> Inl e
      | Inr components \<Rightarrow>
          (case append_cells cell_size min_area cell_type components cells of
             Inl e \<Rightarrow> Inl e
           | Inr cells' \<Rightarrow> detect_cells img cell_size min_area rest cells'))"

definition initial_cells :: "(cell_type \<times> raw_cell list) list" where
  "initial_cells = [(AZ, []), (TK, []), (RR, []), (AR, []), (LAR, []), (USP, [])]"

section \<open>Coordinate normalizer\<close>

text \<open>\<open>min\<close> and \<open>max\<close> of a list raise \<open>ValueError\<close> on the empty list.\<close>

definition py_min :: "int list \<Rightarrow> error + int" where
  "py_min xs = (case xs of [] \<Rightarrow> Inl ValueError | x # rest \<Rightarrow> Inr (fold min rest x))"

definition py_max :: "int list \<Rightarrow> error + int" where
  "py_max xs = (case xs of [] \<Rightarrow> Inl ValueError | x # rest \<Rightarrow> Inr (fold max rest x))"

text \<open>
  The dictionary comprehension \<open>{old: new for new, old in enumerate(sorted_x)}\<close>: a later
  item overwrites an earlier one with the same key.
\<close>

definition rank_map :: "int list \<Rightarrow> (int \<rightharpoonup> int)" where
  "rank_map sorted_xs =
     fold (\<lambda>(new, old) m. m(old \<mapsto> int new)) (enumerate 0 sorted_xs) Map.empty"

text \<open>The loop that applies the two mappings to the cells of one class.\<close>

fun normalize_cell_list ::
  "(int \<rightharpoonup> int) \<Rightarrow> (int \<rightharpoonup> int) \<Rightarrow> 'a raw_cell_scheme list \<Rightarrow> error + cell list" where
  "normalize_cell_list x_map y_map [] = Inr []"
| "normalize_cell_list x_map y_map (c # rest) =
     (case x_map (grid_x c) of
        None \<Rightarrow> Inl KeyError
      | Some new_x \<Rightarrow>
          (case y_map (grid_y c) of
             None \<Rightarrow> Inl KeyError
           | Some new_y \<Rightarrow>
               (case normalize_cell_list x_map y_map rest of
                  Inl e \<Rightarrow> Inl e
                | Inr rest' \<Rightarrow>
                    Inr (\<lparr>grid_x = new_x, grid_y = new_y,
                          pixel_x = pixel_x c, pixel_y = pixel_y c, area = area c,
                          original_grid_x = grid_x c, original_grid_y = grid_y c\<rparr> # rest'))))"

fun normalize_classes ::
  "(int \<rightharpoonup> int) \<Rightarrow> (int \<rightharpoonup> int) \<Rightarrow> (cell_type \<times> 'a raw_cell_scheme list) list
     \<Rightarrow> error + (cell_type \<times> cell list) list" where
  "normalize_classes x_map y_map [] = Inr []"
| "normalize_classes x_map y_map ((cell_type, cell_list) # rest) =
     (case normalize_cell_list x_map y_map cell_list of
        Inl e \<Rightarrow> Inl e
      | Inr cell_list' \<Rightarrow>
          (case normalize_classes x_map y_map rest of
             Inl e \<Rightarrow> Inl e
           | Inr rest' \<Rightarrow> Inr ((cell_type, cell_list') # rest')))"

text \<open>
  \<open>normalize_coordinates\<close>.  The four \<open>print\<close> calls evaluate \<open>min\<close> and \<open>max\<close> of the sorted
  coordinate lists before any cell is mapped; what they print is not part of the result.
\<close>

definition normalize_coordinates ::
  "(cell_type \<times> 'a raw_cell_scheme list) list \<Rightarrow> error + (cell_type \<times> cell list) list" where
  "normalize_coordinates cells =
     (let all_x = set (map grid_x (concat (map snd cells)));
          all_y = set (map grid_y (concat (map snd cells)));
          sorted_x = sorted_list_of_set all_x;
          sorted_y = sorted_list_of_set all_y;
          x_map = rank_map sorted_x;
          y_map = rank_map sorted_y
      in case py_min sorted_x of Inl e \<Rightarrow> Inl e | Inr min_x \<Rightarrow>
         (case py_max sorted_x of Inl e \<Rightarrow> Inl e | Inr max_x \<Rightarrow>
         (case py_min sorted_y of Inl e \<Rightarrow> Inl e | Inr min_y \<Rightarrow>
         (case py_max sorted_y of Inl e \<Rightarrow> Inl e | Inr max_y \<Rightarrow>
            normalize_classes x_map y_map cells))))"

section \<open>Report\<close>

text \<open>\<open>str\<close> of an integer, for the \<open>"x,y"\<close> strings of \<open>positions_by_type\<close>.\<close>

fun str_nat :: "nat \<Rightarrow> string" where
  "str_nat n =
     (if n < 10 then [''0123456789'' ! n]
      else str_nat (n div 10) @ [''0123456789'' ! (n mod 10)])"

definition str_int :: "int \<Rightarrow> string" where
  "str_int i = (if i < 0 then CHR ''-'' # str_nat (nat (- i)) else str_nat (nat i))"

text \<open>
  \<open>parse_scheme\<close> on the decoded RGB image, up to the \<open>output\<close> dictionary it returns.  Opening
  the image and writing the two files are outside the model.
\<close>

definition parse_scheme :: "image \<Rightarrow> int \<Rightarrow> int \<Rightarrow> error + output_rec" where
  "parse_scheme img cell_size min_area =
     (case detect_cells img cell_size min_area COLORS initial_cells of
        Inl e \<Rightarrow> Inl e
      | Inr raw_cells \<Rightarrow>
          (case normalize_coordinates raw_cells of
             Inl e \<Rightarrow> Inl e
           | Inr cells \<Rightarrow>
               (let total = sum_list (map (\<lambda>(cell_type, positions). int (length positions)) cells);
                    all_x = map grid_x (concat (map snd cells));
                    all_y = map grid_y (concat (map snd cells));
                    grid_width = (case all_x of [] \<Rightarrow> 0
                                  | x # rest \<Rightarrow> fold max rest x - fold min rest x + 1);
                    grid_height = (case all_y of [] \<Rightarrow> 0
                                   | y # rest \<Rightarrow> fold max rest y - fold min rest y + 1)
                in Inr \<lparr>metadata =
                          \<lparr>image_size = \<lparr>width = width img, height = height img\<rparr>,
                           meta_cell_size = cell_size,
                           total_cells = total,
                           grid_size = \<lparr>width = grid_width, height = grid_height\<rparr>\<rparr>,
                        out_cells = cells,
                        positions_by_type =
                          map (\<lambda>(cell_type, positions).
                                 (cell_type,
                                  map (\<lambda>p. str_int (grid_x p) @ '','' @ str_int (grid_y p)) positions))
                              cells\<rparr>)))"

section \<open>Notions used in the statements\<close>

text \<open>
  The specification's test for one pixel against one reference colour: the Euclidean distance
  in RGB space is strictly below the tolerance 25.
\<close>

definition rgb_within_tolerance :: "int \<Rightarrow> int \<Rightarrow> int \<Rightarrow> color \<Rightarrow> bool" where
  "rgb_within_tolerance r g b reference =
     (case reference of
        [r0, g0, b0] \<Rightarrow> sqrt (real_of_int ((r - r0)\<^sup>2 + (g - g0)\<^sup>2 + (b - b0)\<^sup>2)) < 25
      | _ \<Rightarrow> False)"

text \<open>
  The rank of a value within a set of occupied values: the number of occupied values strictly
  below it, that is, its zero-based position in sorted order.
\<close>

definition rank_in :: "int set \<Rightarrow> int \<Rightarrow> int" where
  "rank_in S v = int (card {u \<in> S. u < v})"

text \<open>
  The sets \<open>all_x\<close> and \<open>all_y\<close> that \<open>normalize_coordinates\<close> collects, and the grid
  coordinates of a collection, class by class and cell by cell.
\<close>

definition occupied_x :: "(cell_type \<times> 'a raw_cell_scheme list) list \<Rightarrow> int set" where
  "occupied_x cells = set (map grid_x (concat (map snd cells)))"

definition occupied_y :: "(cell_type \<times> 'a raw_cell_scheme list) list \<Rightarrow> int set" where
  "occupied_y cells = set (map grid_y (concat (map snd cells)))"

definition grid_coords :: "(cell_type \<times> 'a raw_cell_scheme list) list \<Rightarrow> (int \<times> int) list list" where
  "grid_coords cells = map (\<lambda>(cell_type, cell_list). map (\<lambda>c. (grid_x c, grid_y c)) cell_list) cells"

text \<open>The image extent: the coordinates \<open>(x, y)\<close> with \<open>0 \<le> x < width\<close> and \<open>0 \<le> y < height\<close>.\<close>

definition extent :: "image \<Rightarrow> (int \<times> int) set" where
  "extent img = {0..<width img} \<times> {0..<height img}"

text \<open>The triple \<open>flood_fill\<close> computes from \<open>component_pixels\<close>.\<close>

definition centroid_of :: "(int \<times> int) list \<Rightarrow> component" where
  "centroid_of ps =
     (real_of_int (sum_list (map fst ps)) / real (length ps),
      real_of_int (sum_list (map snd ps)) / real (length ps),
      int (length ps))"

text \<open>What the detector returns for one blob: the summary of a non-empty list of pixels of the image.\<close>

definition blob_summary :: "image \<Rightarrow> component \<Rightarrow> bool" where
  "blob_summary img c \<longleftrightarrow> (\<exists>ps. ps \<noteq> [] \<and> set ps \<subseteq> extent img \<and> c = centroid_of ps)"

text \<open>
  The dictionary \<open>parse_scheme\<close> appends for a component, and the test of its area filter.
\<close>

definition cell_of_component :: "int \<Rightarrow> component \<Rightarrow> raw_cell" where
  "cell_of_component cell_size c =
     (case c of (center_x, center_y, component_area) \<Rightarrow>
        \<lparr>grid_x = py_int (center_x / real_of_int cell_size),
         grid_y = py_int (center_y / real_of_int cell_size),
         pixel_x = py_int center_x, pixel_y = py_int center_y,
         area = component_area\<rparr>)"

definition passes :: "int \<Rightarrow> component \<Rightarrow> bool" where
  "passes min_area c = (case c of (center_x, center_y, component_area) \<Rightarrow> component_area \<ge> min_area)"

text \<open>An example input: a 2x1 image whose two pixels have the exact AZ reference colour.\<close>

definition red_pair_image :: image where
  "red_pair_image = \<lparr>width = 2, height = 1, pixels = (\<lambda>p. [0xDE, 0x1A, 0x03])\<rparr>"

text \<open>Two images with the same size and the same pixels inside the extent.\<close>

definition same_content :: "image \<Rightarrow> image \<Rightarrow> bool" where
  "same_content img1 img2 \<longleftrightarrow>
     width img1 = width img2 \<and> height img1 = height img2 \<and>
     (\<forall>p\<in>extent img1. pixels img1 p = pixels img2 p)"

text \<open>
  The pixels of the image that match the target colour, and the 4-neighbour adjacency between
  them (up, down, left, right).  A blob of the specification is a class of the reflexive
  transitive closure of this adjacency.
\<close>

definition matching_pixels :: "image \<Rightarrow> color \<Rightarrow> int \<Rightarrow> (int \<times> int) set" where
  "matching_pixels img target_color tolerance =
     {p \<in> extent img. matches_color target_color tolerance (pixels img p)}"

definition adjacent4 :: "image \<Rightarrow> color \<Rightarrow> int \<Rightarrow> ((int \<times> int) \<times> (int \<times> int)) set" where
  "adjacent4 img target_color tolerance =
     {((x, y), (u, v)). (x, y) \<in> matching_pixels img target_color tolerance \<and>
        (u, v) \<in> matching_pixels img target_color tolerance \<and> \<bar>x - u\<bar> + \<bar>y - v\<bar> = 1}"

text \<open>
  An example input: a 4x2 image with two horizontal bars of the exact AZ reference colour,
  \<open>(0, 0), (1, 0)\<close> and \<open>(2, 1), (3, 1)\<close>, which touch only at the corner between \<open>(1, 0)\<close>
  and \<open>(2, 1)\<close>.
\<close>

definition corner_bars_image :: image where
  "corner_bars_image =
     \<lparr>width = 4, height = 2,
      pixels = (\<lambda>p. if p \<in> {(0, 0), (1, 0), (2, 1), (3, 1)} then [0xDE, 0x1A, 0x03] else [0, 0, 0])\<rparr>"

section \<open>Properties of the color matcher\<close>

lemma sum_sq_nonneg:
  fixes c1 c2 :: "int list"
  shows "0 \<le> sum_list (map (\<lambda>(a, b). (a - b) ^ 2) (zip c1 c2))"
  by (rule sum_list_nonneg) auto

lemma sqrt_less_iff_sq:
  assumes "0 \<le> x" "0 < t"
  shows "sqrt x < t \<longleftrightarrow> x < t\<^sup>2"
proof
  assume "sqrt x < t"
  show "x < t\<^sup>2"
  proof (rule ccontr)
    assume "\<not> x < t\<^sup>2"
    then have "t\<^sup>2 \<le> x" by simp
    then have "t \<le> sqrt x" by (rule real_le_rsqrt)
    with \<open>sqrt x < t\<close> show False by simp
  qed
next
  assume "x < t\<^sup>2"
  then show "sqrt x < t" using assms by (intro real_less_lsqrt) simp_all
qed

text \<open>The comparison of a distance with an integer tolerance, without the square root.\<close>

lemma color_distance_less_iff:
  "color_distance c1 c2 < real_of_int t \<longleftrightarrow>
     0 < t \<and> sum_list (map (\<lambda>(a, b). (a - b) ^ 2) (zip c1 c2)) < t * t"
proof -
  let ?s = "sum_list (map (\<lambda>(a, b). (a - b) ^ 2) (zip c1 c2))"
  have s: "0 \<le> ?s" by (rule sum_sq_nonneg)
  show ?thesis
  proof (cases "0 < t")
    case True
    have "sqrt (real_of_int ?s) < real_of_int t \<longleftrightarrow> real_of_int ?s < (real_of_int t)\<^sup>2"
      using True s by (intro sqrt_less_iff_sq) simp_all
    also have "(real_of_int t)\<^sup>2 = real_of_int (t * t)"
      by (simp add: power2_eq_square)
    also have "real_of_int ?s < real_of_int (t * t) \<longleftrightarrow> ?s < t * t"
      by (rule of_int_less_iff)
    finally show ?thesis using True by (simp add: color_distance_def)
  next
    case False
    have "0 \<le> sqrt (real_of_int ?s)" using s by simp
    moreover have "real_of_int t \<le> 0" using False by simp
    ultimately show ?thesis using False unfolding color_distance_def by linarith
  qed
qed

lemma color_distance_less_numeral:
  "color_distance c1 c2 < numeral n \<longleftrightarrow>
     sum_list (map (\<lambda>(a, b). (a - b) ^ 2) (zip c1 c2)) < numeral n * numeral n"
  using color_distance_less_iff [of c1 c2 "numeral n"] by simp

lemma matches_color_iff:
  "matches_color target_color tolerance pixel \<longleftrightarrow>
     0 < tolerance \<and>
     sum_list (map (\<lambda>(a, b). (a - b) ^ 2)
       (zip (if length pixel = 4 then take 3 pixel else pixel) target_color)) < tolerance * tolerance"
  unfolding matches_color_def by (rule color_distance_less_iff)

lemma identify_color_loop_find:
  "identify_color_loop cs p =
     map_option fst (List.find (\<lambda>kc. color_distance p (snd kc) < real_of_int COLOR_TOLERANCE) cs)"
  by (induction cs) auto

lemma identify_color_loop_Some_iff:
  "identify_color_loop cs p = Some c \<longleftrightarrow>
     (\<exists>i<length cs. fst (cs ! i) = c \<and> color_distance p (snd (cs ! i)) < real_of_int COLOR_TOLERANCE \<and>
        (\<forall>j<i. \<not> color_distance p (snd (cs ! j)) < real_of_int COLOR_TOLERANCE))"
  unfolding identify_color_loop_find map_option_eq_Some find_Some_iff by blast

lemma identify_color_loop_None_iff:
  "identify_color_loop cs p = None \<longleftrightarrow>
     (\<forall>i<length cs. \<not> color_distance p (snd (cs ! i)) < real_of_int COLOR_TOLERANCE)"
  unfolding identify_color_loop_find map_option_is_None find_None_iff
  by (metis in_set_conv_nth)

lemma sq_less_625: "x\<^sup>2 < 625 \<Longrightarrow> \<bar>x\<bar> < (25::int)"
proof (rule ccontr)
  assume lt: "x\<^sup>2 < 625" and "\<not> \<bar>x\<bar> < 25"
  then have "25 \<le> \<bar>x\<bar>" by simp
  then have "25\<^sup>2 \<le> \<bar>x\<bar>\<^sup>2" by (rule power_mono) simp
  then show False using lt by simp
qed

lemma sq_bound:
  fixes x y z :: int
  assumes "x\<^sup>2 + y\<^sup>2 + z\<^sup>2 < 625"
  shows "\<bar>x\<bar> < 25 \<and> \<bar>y\<bar> < 25 \<and> \<bar>z\<bar> < 25"
proof -
  have "0 \<le> x\<^sup>2" "0 \<le> y\<^sup>2" "0 \<le> z\<^sup>2" by simp_all
  with assms have "x\<^sup>2 < 625" "y\<^sup>2 < 625" "z\<^sup>2 < 625" by linarith+
  then show ?thesis by (simp add: sq_less_625)
qed

lemma rgb_within_iff:
  "rgb_within_tolerance r g b [r0, g0, b0] \<longleftrightarrow>
     color_distance [r, g, b] [r0, g0, b0] < real_of_int COLOR_TOLERANCE"
  by (simp add: rgb_within_tolerance_def color_distance_def COLOR_TOLERANCE_def add.assoc)

lemma rgb_within_bounds:
  assumes "rgb_within_tolerance r g b [r0, g0, b0]"
  shows "\<bar>r - r0\<bar> < 25 \<and> \<bar>g - g0\<bar> < 25 \<and> \<bar>b - b0\<bar> < 25"
proof -
  from assms have "color_distance [r, g, b] [r0, g0, b0] < real_of_int 25"
    by (simp add: rgb_within_iff COLOR_TOLERANCE_def)
  then have "(r - r0)\<^sup>2 + (g - g0)\<^sup>2 + (b - b0)\<^sup>2 < 625"
    unfolding color_distance_less_iff by simp
  then show ?thesis by (rule sq_bound)
qed

lemma COLORS_keys: "map fst COLORS = [AZ, TK, RR, AR, LAR, USP]"
  by (simp add: COLORS_def)

lemma COLORS_triples: "kc \<in> set COLORS \<Longrightarrow> \<exists>r0 g0 b0. snd kc = [r0, g0, b0]"
  by (auto simp: COLORS_def)

lemma stripped_pixel:
  "pixel = [r, g, b] \<or> pixel = [r, g, b, a] \<Longrightarrow>
     (if length pixel = 4 then take 3 pixel else pixel) = [r, g, b]"
  by auto

lemma COLORS_within_iff:
  assumes "i < length COLORS"
  shows "color_distance [r, g, b] (snd (COLORS ! i)) < real_of_int COLOR_TOLERANCE \<longleftrightarrow>
           rgb_within_tolerance r g b (snd (COLORS ! i))"
proof -
  from assms have "COLORS ! i \<in> set COLORS" by simp
  then obtain r0 g0 b0 where "snd (COLORS ! i) = [r0, g0, b0]"
    using COLORS_triples by blast
  then show ?thesis by (simp only: rgb_within_iff)
qed

text \<open>No pixel is within the tolerance of two reference colours of the table.\<close>

lemma identify_color_unique:
  assumes "pixel = [r, g, b] \<or> pixel = [r, g, b, a]"
  shows "identify_color pixel = Some c \<longleftrightarrow>
           (\<exists>reference. map_of COLORS c = Some reference \<and> rgb_within_tolerance r g b reference)"
proof -
  have strip: "(if length pixel = 4 then take 3 pixel else pixel) = [r, g, b]"
    using assms by (rule stripped_pixel)
  note b = rgb_within_bounds [of r g b]
  show ?thesis
    unfolding identify_color_def strip
    by (cases c) (auto simp: COLORS_def rgb_within_iff [symmetric] dest!: b)
qed

text \<open>
  Claim C4.  For an RGB or RGBA pixel, \<open>identify_color\<close> tests the classes in the order
  AZ, TK, RR, AR, LAR, USP and returns the first class whose reference colour is at Euclidean
  RGB distance strictly below 25 from the pixel (alpha dropped); it returns \<open>None\<close> exactly
  when no reference colour is that close.  The six reference colours do not collide within
  the tolerance, so the class returned is the one, and the only one, whose reference colour
  is within the tolerance.
\<close>

theorem identify_color_first_match:
  assumes "pixel = [r, g, b] \<or> pixel = [r, g, b, a]"
  shows "map fst COLORS = [AZ, TK, RR, AR, LAR, USP] \<and>
    (identify_color pixel = Some c \<longleftrightarrow>
       (\<exists>i<length COLORS. fst (COLORS ! i) = c \<and> rgb_within_tolerance r g b (snd (COLORS ! i)) \<and>
          (\<forall>j<i. \<not> rgb_within_tolerance r g b (snd (COLORS ! j))))) \<and>
    (identify_color pixel = None \<longleftrightarrow>
       (\<forall>i<length COLORS. \<not> rgb_within_tolerance r g b (snd (COLORS ! i)))) \<and>
    (identify_color pixel = Some c \<longleftrightarrow>
       (\<exists>reference. map_of COLORS c = Some reference \<and> rgb_within_tolerance r g b reference))"
proof -
  have strip: "(if length pixel = 4 then take 3 pixel else pixel) = [r, g, b]"
    using assms by (rule stripped_pixel)
  have first: "identify_color pixel = Some c \<longleftrightarrow>
       (\<exists>i<length COLORS. fst (COLORS ! i) = c \<and> rgb_within_tolerance r g b (snd (COLORS ! i)) \<and>
          (\<forall>j<i. \<not> rgb_within_tolerance r g b (snd (COLORS ! j))))"
    unfolding identify_color_def strip identify_color_loop_Some_iff
  proof -
    have w: "\<And>i. i < length COLORS \<Longrightarrow>
        color_distance [r, g, b] (snd (COLORS ! i)) < real_of_int COLOR_TOLERANCE \<longleftrightarrow>
           rgb_within_tolerance r g b (snd (COLORS ! i))"
      by (rule COLORS_within_iff)
    have "\<And>i. i < length COLORS \<Longrightarrow>
       (\<forall>j<i. \<not> color_distance [r, g, b] (snd (COLORS ! j)) < real_of_int COLOR_TOLERANCE) \<longleftrightarrow>
       (\<forall>j<i. \<not> rgb_within_tolerance r g b (snd (COLORS ! j)))"
      using w by (meson order.strict_trans)
    with w show "(\<exists>i<length COLORS. fst (COLORS ! i) = c \<and>
         color_distance [r, g, b] (snd (COLORS ! i)) < real_of_int COLOR_TOLERANCE \<and>
         (\<forall>j<i. \<not> color_distance [r, g, b] (snd (COLORS ! j)) < real_of_int COLOR_TOLERANCE)) =
      (\<exists>i<length COLORS. fst (COLORS ! i) = c \<and> rgb_within_tolerance r g b (snd (COLORS ! i)) \<and>
         (\<forall>j<i. \<not> rgb_within_tolerance r g b (snd (COLORS ! j))))"
      by (intro ex_cong1) auto
  qed
  have none: "identify_color pixel = None \<longleftrightarrow>
       (\<forall>i<length COLORS. \<not> rgb_within_tolerance r g b (snd (COLORS ! i)))"
    unfolding identify_color_def strip identify_color_loop_None_iff
    by (simp add: COLORS_within_iff)
  show ?thesis
    using COLORS_keys first none identify_color_unique [OF assms] by (intro conjI)
qed

theorem identify_color_first_match_witness:
  "([230, 30, 10, 255] = [230, 30, 10] \<or> [230, 30, 10, 255] = [230, 30, 10, 255::int]) \<and>
   identify_color [230, 30, 10, 255] = Some AZ"
proof -
  have h: "[230, 30, 10, 255] = [230, 30, 10] \<or> [230, 30, 10, 255] = [230, 30, 10, 255::int]"
    by simp
  have "identify_color [230, 30, 10, 255] = Some AZ \<longleftrightarrow>
          (\<exists>reference. map_of COLORS AZ = Some reference \<and> rgb_within_tolerance 230 30 10 reference)"
    using identify_color_first_match [OF h, of AZ] by blast
  moreover have "map_of COLORS AZ = Some [222, 26, 3]"
    by (simp add: COLORS_def)
  moreover have "rgb_within_tolerance 230 30 10 [222, 26, 3]"
    by (simp add: rgb_within_iff COLOR_TOLERANCE_def color_distance_less_numeral)
  ultimately show ?thesis using h by simp
qed

section \<open>Properties of the coordinate normalizer\<close>

lemma rank_fold_notin:
  "v \<notin> set xs \<Longrightarrow>
     fold (\<lambda>(new, old) m. m(old \<mapsto> int new)) (enumerate n xs) m v = m v"
  by (induction xs arbitrary: n m) auto

lemma rank_fold_nth:
  "distinct xs \<Longrightarrow> i < length xs \<Longrightarrow>
     fold (\<lambda>(new, old) m. m(old \<mapsto> int new)) (enumerate n xs) m (xs ! i) = Some (int (n + i))"
proof (induction xs arbitrary: n m i)
  case Nil
  then show ?case by simp
next
  case (Cons x xs)
  show ?case
  proof (cases i)
    case 0
    from Cons.prems have "x \<notin> set xs" by simp
    then have "fold (\<lambda>(new, old) m. m(old \<mapsto> int new)) (enumerate (Suc n) xs) (m(x \<mapsto> int n)) x
        = (m(x \<mapsto> int n)) x"
      by (rule rank_fold_notin)
    also have "\<dots> = Some (int n)" by simp
    finally show ?thesis using 0 by (simp del: fun_upd_apply)
  next
    case (Suc k)
    with Cons.prems have "distinct xs" "k < length xs" by simp_all
    from Cons.IH [OF this, of "Suc n" "m(x \<mapsto> int n)"] Suc show ?thesis
      by (simp del: fun_upd_apply)
  qed
qed

lemma rank_map_nth:
  "distinct xs \<Longrightarrow> i < length xs \<Longrightarrow> rank_map xs (xs ! i) = Some (int i)"
  unfolding rank_map_def using rank_fold_nth [of xs i 0 Map.empty] by simp

lemma strict_sorted_less_nth:
  fixes xs :: "int list"
  assumes "sorted xs" "distinct xs" "i < length xs"
  shows "{u \<in> set xs. u < xs ! i} = set (take i xs)"
proof (intro set_eqI iffI)
  fix u assume "u \<in> {u \<in> set xs. u < xs ! i}"
  then obtain j where j: "j < length xs" "u = xs ! j" "xs ! j < xs ! i"
    by (auto simp: in_set_conv_nth)
  have "j < i"
  proof (rule ccontr)
    assume "\<not> j < i"
    then have "i \<le> j" by simp
    then have "xs ! i \<le> xs ! j" using assms(1) j(1) by (simp add: sorted_nth_mono)
    with j(3) show False by simp
  qed
  then show "u \<in> set (take i xs)" using j assms(3) by (auto simp: in_set_conv_nth)
next
  fix u assume "u \<in> set (take i xs)"
  then obtain j where j: "j < i" "u = xs ! j"
    using assms(3) by (auto simp: in_set_conv_nth)
  have "xs ! j \<le> xs ! i" using assms(1,3) j(1) by (simp add: sorted_nth_mono)
  moreover have "xs ! j \<noteq> xs ! i" using assms(2,3) j(1) by (simp add: nth_eq_iff_index_eq)
  ultimately show "u \<in> {u \<in> set xs. u < xs ! i}" using j assms(3) by auto
qed

lemma rank_in_nth:
  assumes "sorted xs" "distinct xs" "i < length xs"
  shows "rank_in (set xs) (xs ! i) = int i"
proof -
  have "card (set (take i xs)) = i"
    using assms(2,3) by (simp add: distinct_card)
  then show ?thesis unfolding rank_in_def strict_sorted_less_nth [OF assms] by simp
qed

lemma rank_map_sorted_list_of_set:
  assumes "finite S" "v \<in> S"
  shows "rank_map (sorted_list_of_set S) v = Some (rank_in S v)"
proof -
  let ?xs = "sorted_list_of_set S"
  have sd: "sorted ?xs" "distinct ?xs" and set: "set ?xs = S" using assms(1) by simp_all
  from assms(2) set have "v \<in> set ?xs" by simp
  then obtain i where i: "i < length ?xs" "?xs ! i = v"
    unfolding in_set_conv_nth by blast
  have "rank_map ?xs (?xs ! i) = Some (int i)" using sd(2) i(1) by (rule rank_map_nth)
  moreover have "rank_in (set ?xs) (?xs ! i) = int i" using sd i(1) by (rule rank_in_nth)
  ultimately show ?thesis using i(2) set by simp
qed

lemma py_min_Cons: "xs \<noteq> [] \<Longrightarrow> \<exists>v. py_min xs = Inr v"
  by (cases xs) (simp_all add: py_min_def)

lemma py_max_Cons: "xs \<noteq> [] \<Longrightarrow> \<exists>v. py_max xs = Inr v"
  by (cases xs) (simp_all add: py_max_def)

lemma normalize_cell_list_map:
  assumes "\<And>c. c \<in> set cell_list \<Longrightarrow> x_map (grid_x c) = Some (fx (grid_x c))"
    and "\<And>c. c \<in> set cell_list \<Longrightarrow> y_map (grid_y c) = Some (fy (grid_y c))"
  shows "normalize_cell_list x_map y_map cell_list =
     Inr (map (\<lambda>c. \<lparr>grid_x = fx (grid_x c), grid_y = fy (grid_y c),
                     pixel_x = pixel_x c, pixel_y = pixel_y c, area = area c,
                     original_grid_x = grid_x c, original_grid_y = grid_y c\<rparr>) cell_list)"
  using assms by (induction cell_list) simp_all

lemma normalize_classes_map:
  assumes "\<And>c. c \<in> set (concat (map snd cells)) \<Longrightarrow> x_map (grid_x c) = Some (fx (grid_x c))"
    and "\<And>c. c \<in> set (concat (map snd cells)) \<Longrightarrow> y_map (grid_y c) = Some (fy (grid_y c))"
  shows "normalize_classes x_map y_map cells =
     Inr (map (\<lambda>(cell_type, cell_list). (cell_type,
            map (\<lambda>c. \<lparr>grid_x = fx (grid_x c), grid_y = fy (grid_y c),
                     pixel_x = pixel_x c, pixel_y = pixel_y c, area = area c,
                     original_grid_x = grid_x c, original_grid_y = grid_y c\<rparr>) cell_list)) cells)"
  using assms
proof (induction cells)
  case Nil
  then show ?case by simp
next
  case (Cons a cells)
  obtain k l where a: "a = (k, l)" by (cases a)
  have "normalize_cell_list x_map y_map l =
     Inr (map (\<lambda>c. \<lparr>grid_x = fx (grid_x c), grid_y = fy (grid_y c),
                     pixel_x = pixel_x c, pixel_y = pixel_y c, area = area c,
                     original_grid_x = grid_x c, original_grid_y = grid_y c\<rparr>) l)"
    using Cons.prems a by (intro normalize_cell_list_map) simp_all
  moreover have "normalize_classes x_map y_map cells =
     Inr (map (\<lambda>(cell_type, cell_list). (cell_type,
            map (\<lambda>c. \<lparr>grid_x = fx (grid_x c), grid_y = fy (grid_y c),
                     pixel_x = pixel_x c, pixel_y = pixel_y c, area = area c,
                     original_grid_x = grid_x c, original_grid_y = grid_y c\<rparr>) cell_list)) cells)"
    using Cons.prems by (intro Cons.IH) simp_all
  ultimately show ?case using a by simp
qed

lemma normalize_coordinates_empty:
  "concat (map snd cells) = [] \<Longrightarrow> normalize_coordinates cells = Inl ValueError"
  by (simp add: normalize_coordinates_def py_min_def)

lemma normalize_coordinates_nonempty:
  assumes "concat (map snd cells) \<noteq> []"
  shows "normalize_coordinates cells =
     Inr (map (\<lambda>(cell_type, cell_list). (cell_type,
            map (\<lambda>c. \<lparr>grid_x = rank_in (occupied_x cells) (grid_x c),
                     grid_y = rank_in (occupied_y cells) (grid_y c),
                     pixel_x = pixel_x c, pixel_y = pixel_y c, area = area c,
                     original_grid_x = grid_x c, original_grid_y = grid_y c\<rparr>) cell_list)) cells)"
proof -
  let ?X = "occupied_x cells" and ?Y = "occupied_y cells"
  have fin: "finite ?X" "finite ?Y" by (simp_all add: occupied_x_def occupied_y_def)
  have ne: "?X \<noteq> {}" "?Y \<noteq> {}" using assms by (simp_all add: occupied_x_def occupied_y_def)
  have sx: "sorted_list_of_set ?X \<noteq> []" and sy: "sorted_list_of_set ?Y \<noteq> []"
    using fin ne by simp_all
  obtain a b c d where mm: "py_min (sorted_list_of_set ?X) = Inr a"
    "py_max (sorted_list_of_set ?X) = Inr b" "py_min (sorted_list_of_set ?Y) = Inr c"
    "py_max (sorted_list_of_set ?Y) = Inr d"
    using py_min_Cons [OF sx] py_max_Cons [OF sx] py_min_Cons [OF sy] py_max_Cons [OF sy] by blast
  have "normalize_classes (rank_map (sorted_list_of_set ?X)) (rank_map (sorted_list_of_set ?Y)) cells =
     Inr (map (\<lambda>(cell_type, cell_list). (cell_type,
            map (\<lambda>c. \<lparr>grid_x = rank_in ?X (grid_x c), grid_y = rank_in ?Y (grid_y c),
                     pixel_x = pixel_x c, pixel_y = pixel_y c, area = area c,
                     original_grid_x = grid_x c, original_grid_y = grid_y c\<rparr>) cell_list)) cells)"
  proof (rule normalize_classes_map)
    fix c assume "c \<in> set (concat (map snd cells))"
    then have "grid_x c \<in> ?X" unfolding occupied_x_def by simp
    with fin(1) show "rank_map (sorted_list_of_set ?X) (grid_x c) = Some (rank_in ?X (grid_x c))"
      by (rule rank_map_sorted_list_of_set)
  next
    fix c assume "c \<in> set (concat (map snd cells))"
    then have "grid_y c \<in> ?Y" unfolding occupied_y_def by simp
    with fin(2) show "rank_map (sorted_list_of_set ?Y) (grid_y c) = Some (rank_in ?Y (grid_y c))"
      by (rule rank_map_sorted_list_of_set)
  qed
  then show ?thesis
    unfolding normalize_coordinates_def Let_def occupied_x_def [symmetric] occupied_y_def [symmetric]
    by (simp add: mm)
qed

lemma rank_in_set:
  "rank_in (set xs) v = int (length (remdups (filter (\<lambda>u. u < v) xs)))"
proof -
  have "card (set (filter (\<lambda>u. u < v) xs)) = length (remdups (filter (\<lambda>u. u < v) xs))"
    by (rule card_set)
  moreover have "set (filter (\<lambda>u. u < v) xs) = {u \<in> set xs. u < v}" by simp
  ultimately show ?thesis unfolding rank_in_def by (simp only:)
qed

lemma rank_in_strict_mono:
  assumes "finite S"
  shows "strict_mono_on S (rank_in S)"
proof (rule strict_mono_onI)
  fix a b assume ab: "a \<in> S" "b \<in> S" "a < b"
  have "{u \<in> S. u < a} \<subset> {u \<in> S. u < b}" using ab by auto
  moreover have "finite {u \<in> S. u < b}" using assms by simp
  ultimately have "card {u \<in> S. u < a} < card {u \<in> S. u < b}"
    by (simp add: psubset_card_mono)
  then show "rank_in S a < rank_in S b" by (simp add: rank_in_def)
qed

lemma set_nth_image: "set ys = (!) ys ` {0..<length ys}"
  by (auto simp: in_set_conv_nth)

lemma rank_in_image_list:
  assumes "sorted ys" "distinct ys"
  shows "rank_in (set ys) ` set ys = {0..<int (length ys)}"
proof -
  have "rank_in (set ys) ` set ys = rank_in (set ys) ` ((!) ys ` {0..<length ys})"
    using set_nth_image [of ys] by simp
  also have "\<dots> = (\<lambda>i. rank_in (set ys) (ys ! i)) ` {0..<length ys}"
    by (simp only: image_image)
  also have "\<dots> = int ` {0..<length ys}"
    using assms by (intro image_cong) (simp_all add: rank_in_nth)
  also have "\<dots> = {0..<int (length ys)}"
    by (simp add: image_int_atLeastLessThan)
  finally show ?thesis .
qed

lemma rank_in_image:
  assumes "finite S"
  shows "rank_in S ` S = {0..<int (card S)}"
  using rank_in_image_list [of "sorted_list_of_set S"] assms by simp

lemma rank_in_bij:
  assumes "finite S"
  shows "bij_betw (rank_in S) S {0..<int (card S)}"
  unfolding bij_betw_def
  using rank_in_image [OF assms] strict_mono_on_imp_inj_on [OF rank_in_strict_mono [OF assms]]
  by simp

lemma rank_in_dense:
  assumes "S = {0..<n}" "v \<in> S"
  shows "rank_in S v = v"
proof -
  have "{u \<in> S. u < v} = {0..<v}" using assms by auto
  then show ?thesis using assms by (simp add: rank_in_def)
qed

lemma grid_coords_normalized:
  "grid_coords (map (\<lambda>(cell_type, cell_list). (cell_type,
            map (\<lambda>c. \<lparr>grid_x = fx (grid_x c), grid_y = fy (grid_y c),
                     pixel_x = pixel_x c, pixel_y = pixel_y c, area = area c,
                     original_grid_x = grid_x c, original_grid_y = grid_y c\<rparr>) cell_list)) cells)
   = map (\<lambda>(cell_type, cell_list). map (\<lambda>c. (fx (grid_x c), fy (grid_y c))) cell_list) cells"
  by (simp add: grid_coords_def case_prod_unfold comp_def)

lemma grid_coords_dense:
  assumes "\<And>c. c \<in> set (concat (map snd cells)) \<Longrightarrow> fx (grid_x c) = grid_x c \<and> fy (grid_y c) = grid_y c"
  shows "map (\<lambda>(cell_type, cell_list). map (\<lambda>c. (fx (grid_x c), fy (grid_y c))) cell_list) cells
    = grid_coords cells"
  unfolding grid_coords_def using assms
  by (induction cells) (auto simp: case_prod_unfold)

lemma occupied_x_normalized:
  "occupied_x (map (\<lambda>(cell_type, cell_list). (cell_type,
            map (\<lambda>c. \<lparr>grid_x = fx (grid_x c), grid_y = fy (grid_y c),
                     pixel_x = pixel_x c, pixel_y = pixel_y c, area = area c,
                     original_grid_x = grid_x c, original_grid_y = grid_y c\<rparr>) cell_list)) cells)
   = fx ` occupied_x cells"
  unfolding occupied_x_def by (force simp: case_prod_unfold image_iff)

lemma occupied_y_normalized:
  "occupied_y (map (\<lambda>(cell_type, cell_list). (cell_type,
            map (\<lambda>c. \<lparr>grid_x = fx (grid_x c), grid_y = fy (grid_y c),
                     pixel_x = pixel_x c, pixel_y = pixel_y c, area = area c,
                     original_grid_x = grid_x c, original_grid_y = grid_y c\<rparr>) cell_list)) cells)
   = fy ` occupied_y cells"
  unfolding occupied_y_def by (force simp: case_prod_unfold image_iff)

lemma normalize_coordinates_dense:
  fixes cells :: "(cell_type \<times> 'a raw_cell_scheme list) list"
  assumes ne: "concat (map snd cells) \<noteq> []"
    and dx: "occupied_x cells = {0..<int (card (occupied_x cells))}"
    and dy: "occupied_y cells = {0..<int (card (occupied_y cells))}"
  shows "\<exists>out. normalize_coordinates cells = Inr out \<and> grid_coords out = grid_coords cells"
proof -
  have "map (\<lambda>(cell_type, cell_list). map (\<lambda>c. (rank_in (occupied_x cells) (grid_x c),
            rank_in (occupied_y cells) (grid_y c))) cell_list) cells = grid_coords cells"
  proof (rule grid_coords_dense)
    fix c assume "c \<in> set (concat (map snd cells))"
    then have "grid_x c \<in> occupied_x cells" "grid_y c \<in> occupied_y cells"
      by (simp_all add: occupied_x_def occupied_y_def)
    then show "rank_in (occupied_x cells) (grid_x c) = grid_x c \<and>
               rank_in (occupied_y cells) (grid_y c) = grid_y c"
      using rank_in_dense [OF dx] rank_in_dense [OF dy] by simp
  qed
  then show ?thesis
    unfolding normalize_coordinates_nonempty [OF ne] by (simp add: grid_coords_normalized)
qed

lemma concat_normalized:
  "concat (map snd (map (\<lambda>(cell_type, cell_list). (cell_type, map f cell_list)) cells))
     = map f (concat (map snd cells))"
  by (induction cells) (auto simp: case_prod_unfold)

text \<open>
  Claim C3.  On a collection with at least one cell, \<open>normalize_coordinates\<close> returns, and
  replaces every grid coordinate by its rank among the occupied values of its axis.  The rank
  is strictly increasing on the occupied values and maps them one-to-one onto
  \<open>{0, \<dots>, occupied_count - 1}\<close>.  On a collection whose occupied values are already
  \<open>{0, \<dots>, occupied_count - 1}\<close> on both axes the grid coordinates are unchanged, and so
  normalizing the result again changes no grid coordinate.
\<close>

theorem normalize_coordinates_rank_bijection:
  fixes cells :: "(cell_type \<times> 'a raw_cell_scheme list) list"
  assumes "concat (map snd cells) \<noteq> []"
  shows "\<exists>out. normalize_coordinates cells = Inr out \<and>
     grid_coords out =
       map (\<lambda>(cell_type, cell_list).
              map (\<lambda>c. (rank_in (occupied_x cells) (grid_x c),
                        rank_in (occupied_y cells) (grid_y c))) cell_list) cells \<and>
     strict_mono_on (occupied_x cells) (rank_in (occupied_x cells)) \<and>
     bij_betw (rank_in (occupied_x cells)) (occupied_x cells) {0..<int (card (occupied_x cells))} \<and>
     strict_mono_on (occupied_y cells) (rank_in (occupied_y cells)) \<and>
     bij_betw (rank_in (occupied_y cells)) (occupied_y cells) {0..<int (card (occupied_y cells))} \<and>
     (occupied_x cells = {0..<int (card (occupied_x cells))} \<and>
      occupied_y cells = {0..<int (card (occupied_y cells))} \<longrightarrow>
        grid_coords out = grid_coords cells) \<and>
     (\<exists>out'. normalize_coordinates out = Inr out' \<and> grid_coords out' = grid_coords out)"
proof -
  let ?X = "occupied_x cells" and ?Y = "occupied_y cells"
  let ?f = "\<lambda>c. \<lparr>grid_x = rank_in ?X (grid_x c), grid_y = rank_in ?Y (grid_y c),
                     pixel_x = pixel_x c, pixel_y = pixel_y c, area = area c,
                     original_grid_x = grid_x c, original_grid_y = grid_y c\<rparr>"
  let ?out = "map (\<lambda>(cell_type, cell_list). (cell_type, map ?f cell_list)) cells"
  have fin: "finite ?X" "finite ?Y" by (simp_all add: occupied_x_def occupied_y_def)
  have run: "normalize_coordinates cells = Inr ?out"
    using assms by (rule normalize_coordinates_nonempty)
  have coords: "grid_coords ?out =
       map (\<lambda>(cell_type, cell_list).
              map (\<lambda>c. (rank_in ?X (grid_x c), rank_in ?Y (grid_y c))) cell_list) cells"
    by (rule grid_coords_normalized)
  have dense: "grid_coords ?out = grid_coords cells"
    if "?X = {0..<int (card ?X)}" "?Y = {0..<int (card ?Y)}"
    using normalize_coordinates_dense [OF assms that] run by simp
  have ne': "concat (map snd ?out) \<noteq> []"
    using assms by (simp only: concat_normalized) simp
  have ox: "occupied_x ?out = {0..<int (card ?X)}"
    by (simp only: occupied_x_normalized rank_in_image [OF fin(1)])
  have oy: "occupied_y ?out = {0..<int (card ?Y)}"
    by (simp only: occupied_y_normalized rank_in_image [OF fin(2)])
  have "occupied_x ?out = {0..<int (card (occupied_x ?out))}"
    unfolding ox by simp
  moreover have "occupied_y ?out = {0..<int (card (occupied_y ?out))}"
    unfolding oy by simp
  ultimately have again: "\<exists>out'. normalize_coordinates ?out = Inr out' \<and> grid_coords out' = grid_coords ?out"
    using ne' by (intro normalize_coordinates_dense)
  show ?thesis
  proof (rule exI [of _ ?out], intro conjI impI)
    show "normalize_coordinates cells = Inr ?out" by (rule run)
    show "grid_coords ?out =
       map (\<lambda>(cell_type, cell_list).
              map (\<lambda>c. (rank_in ?X (grid_x c), rank_in ?Y (grid_y c))) cell_list) cells"
      by (rule coords)
    show "strict_mono_on ?X (rank_in ?X)" using fin(1) by (rule rank_in_strict_mono)
    show "bij_betw (rank_in ?X) ?X {0..<int (card ?X)}" using fin(1) by (rule rank_in_bij)
    show "strict_mono_on ?Y (rank_in ?Y)" using fin(2) by (rule rank_in_strict_mono)
    show "bij_betw (rank_in ?Y) ?Y {0..<int (card ?Y)}" using fin(2) by (rule rank_in_bij)
    show "\<exists>out'. normalize_coordinates ?out = Inr out' \<and> grid_coords out' = grid_coords ?out"
      by (rule again)
  next
    assume "?X = {0..<int (card ?X)} \<and> ?Y = {0..<int (card ?Y)}"
    then show "grid_coords ?out = grid_coords cells" using dense by blast
  qed
qed

theorem normalize_coordinates_rank_bijection_witness:
  "concat (map snd
     [(AZ, [\<lparr>grid_x = 5, grid_y = 7, pixel_x = 140, pixel_y = 190, area = 400\<rparr>]),
      (TK, [\<lparr>grid_x = 2, grid_y = 7, pixel_x = 60, pixel_y = 190, area = 400\<rparr>,
            \<lparr>grid_x = 9, grid_y = 4, pixel_x = 240, pixel_y = 110, area = 400\<rparr>])]) \<noteq> [] \<and>
   (\<exists>out. normalize_coordinates
     [(AZ, [\<lparr>grid_x = 5, grid_y = 7, pixel_x = 140, pixel_y = 190, area = 400\<rparr>]),
      (TK, [\<lparr>grid_x = 2, grid_y = 7, pixel_x = 60, pixel_y = 190, area = 400\<rparr>,
            \<lparr>grid_x = 9, grid_y = 4, pixel_x = 240, pixel_y = 110, area = 400\<rparr>])] = Inr out \<and>
      grid_coords out = [[(1, 1)], [(0, 1), (2, 0)]])"
proof -
  let ?cells = "[(AZ, [\<lparr>grid_x = 5, grid_y = 7, pixel_x = 140, pixel_y = 190, area = 400\<rparr>]),
      (TK, [\<lparr>grid_x = 2, grid_y = 7, pixel_x = 60, pixel_y = 190, area = 400\<rparr>,
            \<lparr>grid_x = 9, grid_y = 4, pixel_x = 240, pixel_y = 110, area = 400\<rparr>])]"
  have ne: "concat (map snd ?cells) \<noteq> []" by simp
  have ox: "occupied_x ?cells = set [5, 2, 9]" and oy: "occupied_y ?cells = set [7, 7, 4]"
    by (simp_all add: occupied_x_def occupied_y_def)
  from normalize_coordinates_rank_bijection [OF ne]
  obtain out where "normalize_coordinates ?cells = Inr out"
    and "grid_coords out =
       map (\<lambda>(cell_type, cell_list).
              map (\<lambda>c. (rank_in (occupied_x ?cells) (grid_x c),
                        rank_in (occupied_y ?cells) (grid_y c))) cell_list) ?cells"
    by blast
  then have "normalize_coordinates ?cells = Inr out \<and> grid_coords out = [[(1, 1)], [(0, 1), (2, 0)]]"
    unfolding ox oy rank_in_set by simp
  with ne show ?thesis by blast
qed

section \<open>Properties of the blob detector\<close>

lemma pixel_access_in:
  "\<not> (x < 0 \<or> x \<ge> width img \<or> y < 0 \<or> y \<ge> height img) \<Longrightarrow>
     pixel_access img x y = Inr (pixels img (x, y))"
  by (simp add: pixel_access_def)

lemma flood_fill_loop_returns:
  "\<exists>r. flood_fill_loop img target_color tolerance queue visited component_pixels = Inr r"
proof (induction img target_color tolerance queue visited component_pixels
    rule: flood_fill_loop.induct)
  case (1 img target_color tolerance visited component_pixels)
  show ?case by (simp add: flood_fill_loop.simps(1))
next
  case (2 img target_color tolerance x y queue visited component_pixels)
  show ?case
  proof (cases "(x, y) \<in> visited")
    case True
    with "2.IH"(1) show ?thesis by (simp add: flood_fill_loop.simps(2))
  next
    case nv: False
    show ?thesis
    proof (cases "x < 0 \<or> x \<ge> width img \<or> y < 0 \<or> y \<ge> height img")
      case True
      with nv "2.IH"(2) show ?thesis by (simp add: flood_fill_loop.simps(2))
    next
      case inb: False
      then have acc: "pixel_access img x y = Inr (pixels img (x, y))"
        by (rule pixel_access_in)
      show ?thesis
      proof (cases "matches_color target_color tolerance (pixels img (x, y))")
        case True
        with nv inb acc "2.IH"(4) show ?thesis by (simp add: flood_fill_loop.simps(2))
      next
        case False
        with nv inb acc "2.IH"(3) show ?thesis by (simp add: flood_fill_loop.simps(2))
      qed
    qed
  qed
qed

lemma flood_fill_loop_inv:
  assumes "flood_fill_loop img target_color tolerance queue visited component_pixels = Inr (visited', pixels')"
  shows "\<exists>new. pixels' = component_pixels @ new \<and> visited' = visited \<union> set new \<and>
           set new \<subseteq> extent img - visited \<and> distinct new \<and>
           (\<forall>p\<in>set new. matches_color target_color tolerance (pixels img p))"
  using assms
proof (induction img target_color tolerance queue visited component_pixels
    rule: flood_fill_loop.induct)
  case (1 img target_color tolerance visited component_pixels)
  then show ?case by (simp add: flood_fill_loop.simps(1))
next
  case (2 img target_color tolerance x y queue visited component_pixels)
  show ?case
  proof (cases "(x, y) \<in> visited")
    case True
    with "2.IH"(1) "2.prems" show ?thesis by (simp add: flood_fill_loop.simps(2))
  next
    case nv: False
    show ?thesis
    proof (cases "x < 0 \<or> x \<ge> width img \<or> y < 0 \<or> y \<ge> height img")
      case True
      with nv "2.IH"(2) "2.prems" show ?thesis by (simp add: flood_fill_loop.simps(2))
    next
      case inb: False
      then have acc: "pixel_access img x y = Inr (pixels img (x, y))"
        by (rule pixel_access_in)
      show ?thesis
      proof (cases "matches_color target_color tolerance (pixels img (x, y))")
        case False
        with nv inb acc "2.IH"(3) "2.prems" show ?thesis by (simp add: flood_fill_loop.simps(2))
      next
        case True
        with nv inb acc "2.prems"
        have "flood_fill_loop img target_color tolerance
                (queue @ [(x + 1, y), (x - 1, y), (x, y + 1), (x, y - 1)])
                (insert (x, y) visited) (component_pixels @ [(x, y)]) = Inr (visited', pixels')"
          by (simp add: flood_fill_loop.simps(2))
        with "2.IH"(4) [OF nv inb acc] True
        obtain new where new: "pixels' = (component_pixels @ [(x, y)]) @ new"
          "visited' = insert (x, y) visited \<union> set new"
          "set new \<subseteq> extent img - insert (x, y) visited" "distinct new"
          "\<forall>p\<in>set new. matches_color target_color tolerance (pixels img p)"
          by blast
        have "(x, y) \<in> extent img" using inb by (simp add: extent_def)
        with new nv True show ?thesis
          by (intro exI [of _ "(x, y) # new"]) auto
      qed
    qed
  qed
qed

lemma flood_fill_loop_start:
  assumes "(x, y) \<in> extent img" "(x, y) \<notin> visited"
    "matches_color target_color tolerance (pixels img (x, y))"
  shows "\<exists>visited' rest. flood_fill_loop img target_color tolerance [(x, y)] visited [] =
            Inr (visited', (x, y) # rest) \<and> visited' = visited \<union> set ((x, y) # rest) \<and>
            set ((x, y) # rest) \<subseteq> extent img"
proof -
  have inb: "\<not> (x < 0 \<or> x \<ge> width img \<or> y < 0 \<or> y \<ge> height img)"
    using assms(1) by (simp add: extent_def)
  obtain visited' pixels' where r: "flood_fill_loop img target_color tolerance
      ([] @ [(x + 1, y), (x - 1, y), (x, y + 1), (x, y - 1)]) (insert (x, y) visited) ([] @ [(x, y)])
        = Inr (visited', pixels')"
    using flood_fill_loop_returns by (metis surj_pair)
  from flood_fill_loop_inv [OF r]
  obtain new where new: "pixels' = [(x, y)] @ new" "visited' = insert (x, y) visited \<union> set new"
    "set new \<subseteq> extent img - insert (x, y) visited"
    by auto
  have "flood_fill_loop img target_color tolerance [(x, y)] visited [] = Inr (visited', pixels')"
    using assms(2,3) inb r
    by (subst flood_fill_loop.simps(2)) (simp add: pixel_access_in)
  with new assms(1) show ?thesis by auto
qed

lemma flood_fill_result:
  assumes "(x, y) \<in> extent img"
  shows "flood_fill img target_color tolerance visited x y = Inr (visited, None) \<or>
     (\<exists>ps. ps \<noteq> [] \<and> set ps \<subseteq> extent img \<and>
        flood_fill img target_color tolerance visited x y =
          Inr (visited \<union> set ps, Some (centroid_of ps)))"
proof -
  have inb: "\<not> (x < 0 \<or> x \<ge> width img \<or> y < 0 \<or> y \<ge> height img)"
    using assms(1) by (simp add: extent_def)
  show ?thesis
  proof (cases "(x, y) \<notin> visited \<and> matches_color target_color tolerance (pixels img (x, y))")
    case False
    then show ?thesis using inb by (auto simp: flood_fill_def pixel_access_in)
  next
    case True
    with flood_fill_loop_start [OF assms, of visited target_color tolerance]
    obtain visited' rest where r: "flood_fill_loop img target_color tolerance [(x, y)] visited [] =
            Inr (visited', (x, y) # rest)" "visited' = visited \<union> set ((x, y) # rest)"
            "set ((x, y) # rest) \<subseteq> extent img"
      by blast
    have "flood_fill img target_color tolerance visited x y =
          Inr (visited \<union> set ((x, y) # rest), Some (centroid_of ((x, y) # rest)))"
      using True inb r(1,2) by (simp add: flood_fill_def pixel_access_in centroid_of_def Let_def)
    with r(3) show ?thesis by blast
  qed
qed

lemma scan_result:
  assumes "set coords \<subseteq> extent img"
  shows "\<exists>visited' new. scan img target_color tolerance coords visited components =
            Inr (visited', components @ new) \<and> (\<forall>c\<in>set new. blob_summary img c)"
  using assms
proof (induction coords arbitrary: visited components)
  case Nil
  then show ?case by simp
next
  case (Cons p coords)
  obtain x y where p: "p = (x, y)" by (cases p)
  from Cons.prems p have inx: "(x, y) \<in> extent img" and rest: "set coords \<subseteq> extent img"
    by simp_all
  show ?case
  proof (cases "(x, y) \<in> visited")
    case True
    with Cons.IH [OF rest, of visited components] p show ?thesis by simp
  next
    case nv: False
    from flood_fill_result [OF inx, of target_color tolerance visited]
    show ?thesis
    proof
      assume ff: "flood_fill img target_color tolerance visited x y = Inr (visited, None)"
      with Cons.IH [OF rest, of visited components] p nv show ?thesis by simp
    next
      assume "\<exists>ps. ps \<noteq> [] \<and> set ps \<subseteq> extent img \<and>
        flood_fill img target_color tolerance visited x y =
          Inr (visited \<union> set ps, Some (centroid_of ps))"
      then obtain ps where ps: "ps \<noteq> []" "set ps \<subseteq> extent img"
        and ff: "flood_fill img target_color tolerance visited x y =
          Inr (visited \<union> set ps, Some (centroid_of ps))"
        by blast
      from Cons.IH [OF rest, of "visited \<union> set ps" "components @ [centroid_of ps]"]
      obtain visited' new where r: "scan img target_color tolerance coords (visited \<union> set ps)
          (components @ [centroid_of ps]) = Inr (visited', (components @ [centroid_of ps]) @ new)"
          "\<forall>c\<in>set new. blob_summary img c"
        by blast
      have "blob_summary img (centroid_of ps)"
        using ps unfolding blob_summary_def by blast
      with r p nv ff show ?thesis
        by (intro exI [of _ visited'] exI [of _ "centroid_of ps # new"]) simp
    qed
  qed
qed

lemma set_raster: "set (raster img) = extent img"
  by (auto simp: raster_def extent_def)

lemma find_connected_components_result:
  "\<exists>components. find_connected_components img target_color tolerance = Inr components \<and>
      (\<forall>c\<in>set components. blob_summary img c)"
proof -
  have "set (raster img) \<subseteq> extent img" by (simp add: set_raster)
  from scan_result [OF this, of target_color tolerance "{}" "[]"]
  obtain visited' new where "scan img target_color tolerance (raster img) {} [] = Inr (visited', [] @ new)"
    and "\<forall>c\<in>set new. blob_summary img c"
    by blast
  then show ?thesis by (simp add: find_connected_components_def)
qed

lemma blob_summary_nonneg:
  assumes "blob_summary img (center_x, center_y, a)"
  shows "0 \<le> center_x \<and> 0 \<le> center_y \<and> 0 < a"
proof -
  from assms obtain ps where ps: "ps \<noteq> []" "set ps \<subseteq> extent img"
    and c: "(center_x, center_y, a) = centroid_of ps"
    unfolding blob_summary_def by blast
  have nn: "0 \<le> fst p \<and> 0 \<le> snd p" if "p \<in> set ps" for p
  proof -
    from that ps(2) have "p \<in> extent img" by blast
    then show ?thesis by (auto simp: extent_def)
  qed
  have "0 \<le> sum_list (map fst ps)"
    by (rule sum_list_nonneg) (use nn in auto)
  moreover have "0 \<le> sum_list (map snd ps)"
    by (rule sum_list_nonneg) (use nn in auto)
  ultimately have "0 \<le> sum_list (map fst ps)" "0 \<le> sum_list (map snd ps)" by simp_all
  with c ps(1) show ?thesis by (simp add: centroid_of_def)
qed

lemma cell_of_component_simp:
  "cell_of_component cell_size (center_x, center_y, component_area) =
        \<lparr>grid_x = py_int (center_x / real_of_int cell_size),
         grid_y = py_int (center_y / real_of_int cell_size),
         pixel_x = py_int center_x, pixel_y = py_int center_y,
         area = component_area\<rparr>"
  by (simp add: cell_of_component_def)

lemma passes_simp: "passes min_area (center_x, center_y, component_area) \<longleftrightarrow> component_area \<ge> min_area"
  by (simp add: passes_def)

lemma append_cells_eq:
  assumes "cell_size \<noteq> 0" "map_of cells k = Some l"
  shows "append_cells cell_size min_area k comps cells =
     Inr (AList.update k (l @ map (cell_of_component cell_size) (filter (passes min_area) comps)) cells)"
  using assms(2)
proof (induction comps arbitrary: cells l)
  case Nil
  then show ?case by (simp add: update_triv)
next
  case (Cons c comps)
  obtain cx cy a where c: "c = (cx, cy, a)" by (cases c)
  show ?case
  proof (cases "a \<ge> min_area")
    case False
    with Cons c show ?thesis by (simp add: passes_simp)
  next
    case True
    let ?cell = "cell_of_component cell_size c"
    have "map_of (AList.update k (l @ [?cell]) cells) k = Some (l @ [?cell])"
      by (simp add: update_conv')
    from Cons.IH [OF this]
    have "append_cells cell_size min_area k comps (AList.update k (l @ [?cell]) cells) =
      Inr (AList.update k ((l @ [?cell]) @ map (cell_of_component cell_size) (filter (passes min_area) comps)) cells)"
      by simp
    with True c Cons.prems assms(1) show ?thesis
      by (simp add: passes_simp truediv_def cell_of_component_simp)
  qed
qed

lemma detect_cells_COLORS:
  assumes "cell_size \<noteq> 0"
  shows "\<exists>cells. detect_cells img cell_size min_area COLORS initial_cells = Inr cells \<and>
     map fst cells = map fst COLORS \<and>
     (\<forall>k color comps. (k, color) \<in> set COLORS \<longrightarrow>
        find_connected_components img color COLOR_TOLERANCE = Inr comps \<longrightarrow>
        map_of cells k = Some (map (cell_of_component cell_size) (filter (passes min_area) comps)))"
proof -
  obtain c1 where c1: "find_connected_components img [0xDE, 0x1A, 0x03] COLOR_TOLERANCE = Inr c1"
    using find_connected_components_result by blast
  obtain c2 where c2: "find_connected_components img [0xA5, 0xB5, 0xA4] COLOR_TOLERANCE = Inr c2"
    using find_connected_components_result by blast
  obtain c3 where c3: "find_connected_components img [0xEB, 0xEB, 0xEB] COLOR_TOLERANCE = Inr c3"
    using find_connected_components_result by blast
  obtain c4 where c4: "find_connected_components img [0x01, 0xB1, 0x91] COLOR_TOLERANCE = Inr c4"
    using find_connected_components_result by blast
  obtain c5 where c5: "find_connected_components img [0x00, 0x67, 0xCE] COLOR_TOLERANCE = Inr c5"
    using find_connected_components_result by blast
  obtain c6 where c6: "find_connected_components img [0xFE, 0xD8, 0x01] COLOR_TOLERANCE = Inr c6"
    using find_connected_components_result by blast
  let ?f = "\<lambda>comps. map (cell_of_component cell_size) (filter (passes min_area) comps)"
  have run: "detect_cells img cell_size min_area COLORS initial_cells =
      Inr [(AZ, ?f c1), (TK, ?f c2), (RR, ?f c3), (AR, ?f c4), (LAR, ?f c5), (USP, ?f c6)]"
    unfolding COLORS_def initial_cells_def
    by (simp add: c1 c2 c3 c4 c5 c6 append_cells_eq [OF assms])
  show ?thesis
    unfolding run
    by (rule exI [of _ "[(AZ, ?f c1), (TK, ?f c2), (RR, ?f c3), (AR, ?f c4), (LAR, ?f c5), (USP, ?f c6)]"])
       (auto simp: COLORS_def c1 c2 c3 c4 c5 c6)
qed

lemmas detector_eval = flood_fill_def flood_fill_loop.simps pixel_access_def matches_color_iff
  raster_def upto.simps find_connected_components_def COLOR_TOLERANCE_def

lemmas pipeline_eval = detector_eval parse_scheme_def COLORS_def initial_cells_def truediv_def
  py_int_def normalize_coordinates_def rank_map_def py_min_def py_max_def enumerate_eq_zip
  str_int_def str_nat.simps

lemma flood_fill_returns:
  assumes "(start_x, start_y) \<in> extent img"
  shows "\<exists>r. flood_fill img target_color tolerance visited start_x start_y = Inr r"
  using flood_fill_result [OF assms, of target_color tolerance visited] by auto

text \<open>
  Claim C7.  The flood fill never fails: whatever the queue holds, the loop returns.  A
  dequeued coordinate outside the image extent, whose pixel access would raise, is dropped with
  the state unchanged and its pixel is not read.  A fill started inside the extent returns,
  and so does the whole detection pass.
\<close>

theorem flood_fill_rejects_out_of_extent:
  "(\<exists>r. flood_fill_loop img target_color tolerance queue visited component_pixels = Inr r) \<and>
   (x < 0 \<or> x \<ge> width img \<or> y < 0 \<or> y \<ge> height img \<longrightarrow>
      pixel_access img x y = Inl IndexError \<and>
      flood_fill_loop img target_color tolerance ((x, y) # queue) visited component_pixels =
        flood_fill_loop img target_color tolerance queue visited component_pixels) \<and>
   (0 \<le> start_x \<and> start_x < width img \<and> 0 \<le> start_y \<and> start_y < height img \<longrightarrow>
      (\<exists>r. flood_fill img target_color tolerance visited start_x start_y = Inr r)) \<and>
   (\<exists>components. find_connected_components img target_color tolerance = Inr components)"
proof (intro conjI impI)
  show "\<exists>r. flood_fill_loop img target_color tolerance queue visited component_pixels = Inr r"
    by (rule flood_fill_loop_returns)
next
  assume out: "x < 0 \<or> x \<ge> width img \<or> y < 0 \<or> y \<ge> height img"
  then show "pixel_access img x y = Inl IndexError"
    by (auto simp: pixel_access_def)
  from out show "flood_fill_loop img target_color tolerance ((x, y) # queue) visited component_pixels =
        flood_fill_loop img target_color tolerance queue visited component_pixels"
    by (simp add: flood_fill_loop.simps(2))
next
  assume "0 \<le> start_x \<and> start_x < width img \<and> 0 \<le> start_y \<and> start_y < height img"
  then have "(start_x, start_y) \<in> extent img" by (simp add: extent_def)
  then show "\<exists>r. flood_fill img target_color tolerance visited start_x start_y = Inr r"
    by (rule flood_fill_returns)
next
  show "\<exists>components. find_connected_components img target_color tolerance = Inr components"
    using find_connected_components_result by blast
qed

theorem flood_fill_rejects_out_of_extent_witness:
  "((-1::int) < 0 \<or> (-1::int) \<ge> 1 \<or> (0::int) < 0 \<or> (0::int) \<ge> 1) \<and>
   (0 \<le> (0::int) \<and> (0::int) < 1 \<and> 0 \<le> (0::int) \<and> (0::int) < 1) \<and>
   pixel_access \<lparr>width = 1, height = 1, pixels = (\<lambda>p. [0xDE, 0x1A, 0x03])\<rparr> (-1) 0 = Inl IndexError \<and>
   flood_fill_loop \<lparr>width = 1, height = 1, pixels = (\<lambda>p. [0xDE, 0x1A, 0x03])\<rparr>
     [0xDE, 0x1A, 0x03] 25 [(-1, 0)] {(0, 0)} [(0, 0)] = Inr ({(0, 0)}, [(0, 0)]) \<and>
   (\<exists>r. flood_fill \<lparr>width = 1, height = 1, pixels = (\<lambda>p. [0xDE, 0x1A, 0x03])\<rparr>
     [0xDE, 0x1A, 0x03] 25 {(0, 0)} 0 0 = Inr r)"
  using flood_fill_rejects_out_of_extent
    [of "\<lparr>width = 1, height = 1, pixels = (\<lambda>p. [0xDE, 0x1A, 0x03])\<rparr>" "[0xDE, 0x1A, 0x03]" 25
        "[]" "{(0, 0)}" "[(0, 0)]" "-1" 0 0 0]
  by (simp add: flood_fill_loop.simps(1))

text \<open>Whenever the detection finds no cell of any class, \<open>parse_scheme\<close> raises.\<close>

lemma parse_scheme_empty_raises:
  assumes "detect_cells img cell_size min_area COLORS initial_cells = Inr raw_cells"
    and "concat (map snd raw_cells) = []"
  shows "parse_scheme img cell_size min_area = Inl ValueError"
  using assms by (simp add: parse_scheme_def normalize_coordinates_empty)

text \<open>
  Claim C1.  On an image without any cell the run does not complete: \<open>normalize_coordinates\<close>
  evaluates \<open>min\<close> of an empty list for its report and raises \<open>ValueError\<close>, before
  \<open>parse_scheme\<close> reaches the guarded computation of the grid size.
\<close>

theorem parse_scheme_no_cells_raises:
  "parse_scheme \<lparr>width = 1, height = 1, pixels = (\<lambda>p. [0, 0, 0])\<rparr> 26 100 = Inl ValueError"
  by (simp add: pipeline_eval)

text \<open>
  Claim C10.  On the collection with six empty classes \<open>normalize_coordinates\<close> returns no
  lists: it raises \<open>ValueError\<close>.
\<close>

theorem normalize_coordinates_no_cells_raises:
  "normalize_coordinates initial_cells = Inl ValueError"
  by (simp add: initial_cells_def normalize_coordinates_empty)

section \<open>Properties of the area filter, the grid quantizer and the report\<close>

lemma py_int_nonneg: "0 \<le> f \<Longrightarrow> py_int f = \<lfloor>f\<rfloor>"
  by (simp add: py_int_def)

lemma detected_components_nonneg:
  assumes "find_connected_components img target_color tolerance = Inr components"
    and "(center_x, center_y, a) \<in> set components"
  shows "0 \<le> center_x \<and> 0 \<le> center_y \<and> 0 < a"
proof -
  from find_connected_components_result [of img target_color tolerance] assms(1)
  have "\<forall>c\<in>set components. blob_summary img c" by auto
  with assms(2) have "blob_summary img (center_x, center_y, a)" by blast
  then show ?thesis by (rule blob_summary_nonneg)
qed

text \<open>The cells collected for one class, for a non-zero cell size.\<close>

lemma collected_cells:
  assumes "cell_size \<noteq> 0"
    and "(k, color) \<in> set COLORS"
    and "find_connected_components img color COLOR_TOLERANCE = Inr components"
  shows "\<exists>cells l. detect_cells img cell_size min_area COLORS initial_cells = Inr cells \<and>
     map_of cells k = Some l \<and>
     l = map (\<lambda>(center_x, center_y, a).
               \<lparr>grid_x = py_int (center_x / real_of_int cell_size),
                grid_y = py_int (center_y / real_of_int cell_size),
                pixel_x = py_int center_x, pixel_y = py_int center_y, area = a\<rparr>)
           (filter (\<lambda>(center_x, center_y, a). min_area \<le> a) components)"
proof -
  from detect_cells_COLORS [OF assms(1), of img min_area] assms(2,3)
  obtain cells where run: "detect_cells img cell_size min_area COLORS initial_cells = Inr cells"
    and l: "map_of cells k = Some (map (cell_of_component cell_size) (filter (passes min_area) components))"
    by blast
  have fn: "cell_of_component cell_size = (\<lambda>(center_x, center_y, a).
               \<lparr>grid_x = py_int (center_x / real_of_int cell_size),
                grid_y = py_int (center_y / real_of_int cell_size),
                pixel_x = py_int center_x, pixel_y = py_int center_y, area = a\<rparr>)"
    by (auto simp: cell_of_component_simp)
  have ps: "passes min_area = (\<lambda>(center_x, center_y, a). min_area \<le> a)"
    by (auto simp: passes_simp)
  from run l show ?thesis unfolding fn ps by blast
qed

text \<open>
  Claim C6.  For a non-zero cell size, the cells \<open>parse_scheme\<close> collects for a class are
  exactly the cells of the detected components of its colour whose area is at least
  \<open>min_area\<close>, in detection order.  So no collected cell has area \<open>min_area - 1\<close>: a blob of
  that area is excluded; and every blob of area exactly \<open>min_area\<close> has its cell in the
  collection.
\<close>

theorem min_area_filter_boundary_inclusive:
  assumes "cell_size \<noteq> 0"
    and "(k, color) \<in> set COLORS"
    and "find_connected_components img color COLOR_TOLERANCE = Inr components"
  shows "\<exists>cells l. detect_cells img cell_size min_area COLORS initial_cells = Inr cells \<and>
     map_of cells k = Some l \<and>
     l = map (\<lambda>(center_x, center_y, a).
               \<lparr>grid_x = py_int (center_x / real_of_int cell_size),
                grid_y = py_int (center_y / real_of_int cell_size),
                pixel_x = py_int center_x, pixel_y = py_int center_y, area = a\<rparr>)
           (filter (\<lambda>(center_x, center_y, a). min_area \<le> a) components) \<and>
     (\<forall>c\<in>set l. area c \<noteq> min_area - 1) \<and>
     (\<forall>center_x center_y. (center_x, center_y, min_area) \<in> set components \<longrightarrow>
        \<lparr>grid_x = py_int (center_x / real_of_int cell_size),
         grid_y = py_int (center_y / real_of_int cell_size),
         pixel_x = py_int center_x, pixel_y = py_int center_y, area = min_area\<rparr> \<in> set l)"
proof -
  from collected_cells [OF assms, of min_area]
  obtain cells l where run: "detect_cells img cell_size min_area COLORS initial_cells = Inr cells"
    and l: "map_of cells k = Some l"
    and eq: "l = map (\<lambda>(center_x, center_y, a).
               \<lparr>grid_x = py_int (center_x / real_of_int cell_size),
                grid_y = py_int (center_y / real_of_int cell_size),
                pixel_x = py_int center_x, pixel_y = py_int center_y, area = a\<rparr>)
           (filter (\<lambda>(center_x, center_y, a). min_area \<le> a) components)"
    by blast
  have excl: "\<forall>c\<in>set l. area c \<noteq> min_area - 1"
    unfolding eq by auto
  have incl: "\<forall>center_x center_y. (center_x, center_y, min_area) \<in> set components \<longrightarrow>
        \<lparr>grid_x = py_int (center_x / real_of_int cell_size),
         grid_y = py_int (center_y / real_of_int cell_size),
         pixel_x = py_int center_x, pixel_y = py_int center_y, area = min_area\<rparr> \<in> set l"
    unfolding eq by force
  from run l eq excl incl show ?thesis by blast
qed

theorem min_area_filter_boundary_inclusive_witness:
  "(26::int) \<noteq> 0 \<and> (AZ, [0xDE, 0x1A, 0x03]) \<in> set COLORS \<and>
   find_connected_components
     \<lparr>width = 3, height = 2,
      pixels = (\<lambda>p. if p \<in> {(0, 0), (1, 0), (2, 1)} then [0xDE, 0x1A, 0x03] else [0, 0, 0])\<rparr>
     [0xDE, 0x1A, 0x03] COLOR_TOLERANCE = Inr [(1 / 2, 0, 2), (2, 1, 1)] \<and>
   (\<exists>cells. detect_cells
     \<lparr>width = 3, height = 2,
      pixels = (\<lambda>p. if p \<in> {(0, 0), (1, 0), (2, 1)} then [0xDE, 0x1A, 0x03] else [0, 0, 0])\<rparr>
     26 2 COLORS initial_cells = Inr cells \<and>
     map_of cells AZ = Some [\<lparr>grid_x = 0, grid_y = 0, pixel_x = 0, pixel_y = 0, area = 2\<rparr>])"
proof -
  let ?img = "\<lparr>width = 3, height = 2,
      pixels = (\<lambda>p. if p \<in> {(0, 0), (1, 0), (2, 1)} then [0xDE, 0x1A, 0x03] else [0, 0, 0])\<rparr>"
  have h1: "(26::int) \<noteq> 0" by simp
  have h2: "(AZ, [0xDE, 0x1A, 0x03]) \<in> set COLORS" by (simp add: COLORS_def)
  have h3: "find_connected_components ?img [0xDE, 0x1A, 0x03] COLOR_TOLERANCE
      = Inr [(1 / 2, 0, 2), (2, 1, 1)]"
    by (simp add: detector_eval)
  from min_area_filter_boundary_inclusive [OF h1 h2 h3, of 2]
  obtain cells l where run: "detect_cells ?img 26 2 COLORS initial_cells = Inr cells"
    and l: "map_of cells AZ = Some l"
    and eq: "l = map (\<lambda>(center_x, center_y, a).
               \<lparr>grid_x = py_int (center_x / real_of_int 26),
                grid_y = py_int (center_y / real_of_int 26),
                pixel_x = py_int center_x, pixel_y = py_int center_y, area = a\<rparr>)
           (filter (\<lambda>(center_x, center_y, a). 2 \<le> a) [(1 / 2, 0, 2), (2, 1, 1)])"
    by blast
  from eq have "l = [\<lparr>grid_x = 0, grid_y = 0, pixel_x = 0, pixel_y = 0, area = 2\<rparr>]"
    by (simp add: py_int_def)
  with run l h1 h2 h3 show ?thesis by blast
qed

lemma floor_pairs_eq:
  assumes "\<And>cx cy a. (cx, cy, a) \<in> set comps \<Longrightarrow> f (cx, cy, a) = g (cx, cy, a)"
  shows "map f (filter P comps) = map g (filter P comps)"
  using assms by (induction comps) auto

text \<open>
  Claim C8.  Every centroid the detector returns is non-negative.  For a positive pitch, the
  truncation \<open>int(center / cell_size)\<close> is therefore the floor of the quotient, and the grid
  coordinates of the collected cells are \<open>(floor(center_x / pitch), floor(center_y / pitch))\<close>
  of the components that pass the area filter.
\<close>

theorem grid_quantizer_floor:
  assumes "0 < cell_size"
    and "(k, color) \<in> set COLORS"
    and "find_connected_components img color COLOR_TOLERANCE = Inr components"
  shows "(\<forall>(center_x, center_y, a)\<in>set components.
            0 \<le> center_x \<and> 0 \<le> center_y \<and>
            py_int (center_x / real_of_int cell_size) = \<lfloor>center_x / real_of_int cell_size\<rfloor> \<and>
            py_int (center_y / real_of_int cell_size) = \<lfloor>center_y / real_of_int cell_size\<rfloor>) \<and>
     (\<exists>cells l. detect_cells img cell_size min_area COLORS initial_cells = Inr cells \<and>
        map_of cells k = Some l \<and>
        map (\<lambda>c. (grid_x c, grid_y c)) l =
          map (\<lambda>(center_x, center_y, a).
                 (\<lfloor>center_x / real_of_int cell_size\<rfloor>, \<lfloor>center_y / real_of_int cell_size\<rfloor>))
            (filter (\<lambda>(center_x, center_y, a). min_area \<le> a) components))"
proof -
  have nn: "0 \<le> cx \<and> 0 \<le> cy" if "(cx, cy, a) \<in> set components" for cx cy a
    using detected_components_nonneg [OF assms(3) that] by simp
  have q: "py_int (cx / real_of_int cell_size) = \<lfloor>cx / real_of_int cell_size\<rfloor> \<and>
           py_int (cy / real_of_int cell_size) = \<lfloor>cy / real_of_int cell_size\<rfloor>"
    if "(cx, cy, a) \<in> set components" for cx cy a
  proof -
    from nn [OF that] assms(1) have "0 \<le> cx / real_of_int cell_size" "0 \<le> cy / real_of_int cell_size"
      by simp_all
    then show ?thesis by (simp add: py_int_nonneg)
  qed
  have first: "\<forall>(center_x, center_y, a)\<in>set components.
            0 \<le> center_x \<and> 0 \<le> center_y \<and>
            py_int (center_x / real_of_int cell_size) = \<lfloor>center_x / real_of_int cell_size\<rfloor> \<and>
            py_int (center_y / real_of_int cell_size) = \<lfloor>center_y / real_of_int cell_size\<rfloor>"
    using nn q by blast
  from assms(1) have ne: "cell_size \<noteq> 0" by simp
  from collected_cells [OF ne assms(2,3), of min_area]
  obtain cells l where run: "detect_cells img cell_size min_area COLORS initial_cells = Inr cells"
    and l: "map_of cells k = Some l"
    and eq: "l = map (\<lambda>(center_x, center_y, a).
               \<lparr>grid_x = py_int (center_x / real_of_int cell_size),
                grid_y = py_int (center_y / real_of_int cell_size),
                pixel_x = py_int center_x, pixel_y = py_int center_y, area = a\<rparr>)
           (filter (\<lambda>(center_x, center_y, a). min_area \<le> a) components)"
    by blast
  have "map (\<lambda>c. (grid_x c, grid_y c)) l =
      map (\<lambda>(center_x, center_y, a).
             (py_int (center_x / real_of_int cell_size), py_int (center_y / real_of_int cell_size)))
        (filter (\<lambda>(center_x, center_y, a). min_area \<le> a) components)"
    unfolding eq by (simp add: case_prod_unfold comp_def)
  also have "\<dots> = map (\<lambda>(center_x, center_y, a).
                 (\<lfloor>center_x / real_of_int cell_size\<rfloor>, \<lfloor>center_y / real_of_int cell_size\<rfloor>))
            (filter (\<lambda>(center_x, center_y, a). min_area \<le> a) components)"
    by (rule floor_pairs_eq) (simp add: q)
  finally show ?thesis using first run l by blast
qed

theorem grid_quantizer_floor_witness:
  "(0::int) < 2 \<and> (AZ, [0xDE, 0x1A, 0x03]) \<in> set COLORS \<and>
   find_connected_components
     \<lparr>width = 3, height = 2,
      pixels = (\<lambda>p. if p \<in> {(0, 0), (1, 0), (2, 1)} then [0xDE, 0x1A, 0x03] else [0, 0, 0])\<rparr>
     [0xDE, 0x1A, 0x03] COLOR_TOLERANCE = Inr [(1 / 2, 0, 2), (2, 1, 1)] \<and>
   (\<exists>cells l. detect_cells
     \<lparr>width = 3, height = 2,
      pixels = (\<lambda>p. if p \<in> {(0, 0), (1, 0), (2, 1)} then [0xDE, 0x1A, 0x03] else [0, 0, 0])\<rparr>
     2 1 COLORS initial_cells = Inr cells \<and>
     map_of cells AZ = Some l \<and> map (\<lambda>c. (grid_x c, grid_y c)) l = [(0, 0), (1, 0)])"
proof -
  let ?img = "\<lparr>width = 3, height = 2,
      pixels = (\<lambda>p. if p \<in> {(0, 0), (1, 0), (2, 1)} then [0xDE, 0x1A, 0x03] else [0, 0, 0])\<rparr>"
  have h1: "(0::int) < 2" by simp
  have h2: "(AZ, [0xDE, 0x1A, 0x03]) \<in> set COLORS" by (simp add: COLORS_def)
  have h3: "find_connected_components ?img [0xDE, 0x1A, 0x03] COLOR_TOLERANCE
      = Inr [(1 / 2, 0, 2), (2, 1, 1)]"
    by (simp add: detector_eval)
  from grid_quantizer_floor [OF h1 h2 h3, of 1]
  obtain cells l where run: "detect_cells ?img 2 1 COLORS initial_cells = Inr cells"
    and l: "map_of cells AZ = Some l"
    and eq: "map (\<lambda>c. (grid_x c, grid_y c)) l =
          map (\<lambda>(center_x, center_y, a).
                 (\<lfloor>center_x / real_of_int 2\<rfloor>, \<lfloor>center_y / real_of_int 2\<rfloor>))
            (filter (\<lambda>(center_x, center_y, a). 1 \<le> a) [(1 / 2, 0, 2::int), (2, 1, 1)])"
    by blast
  from eq have coords: "map (\<lambda>c. (grid_x c, grid_y c)) l = [(0, 0), (1, 0)]"
    by simp
  from run l coords
  have "\<exists>cells l. detect_cells ?img 2 1 COLORS initial_cells = Inr cells \<and>
     map_of cells AZ = Some l \<and> map (\<lambda>c. (grid_x c, grid_y c)) l = [(0, 0), (1, 0)]"
    by (intro exI [of _ cells] exI [of _ l] conjI)
  with h1 h2 h3 show ?thesis by (intro conjI)
qed

lemma map_of_map_values:
  "map_of (map (\<lambda>(k, v). (k, f v)) xs) k = map_option f (map_of xs k)"
  by (induction xs) auto

lemma append_cells_zero:
  "append_cells 0 min_area k comps cells = Inr cells' \<Longrightarrow> cells' = cells"
proof (induction comps arbitrary: cells)
  case Nil
  then show ?case by simp
next
  case (Cons c comps)
  obtain cx cy a where c: "c = (cx, cy, a)" by (cases c)
  show ?case
  proof (cases "a \<ge> min_area")
    case True
    with Cons.prems c show ?thesis by (simp add: truediv_def)
  next
    case False
    with Cons c show ?thesis by simp
  qed
qed

lemma detect_cells_zero:
  "detect_cells img 0 min_area colors cells = Inr cells' \<Longrightarrow> cells' = cells"
proof (induction colors arbitrary: cells)
  case Nil
  then show ?case by simp
next
  case (Cons kc colors)
  obtain k color where kc: "kc = (k, color)" by (cases kc)
  from Cons.prems kc obtain comps cells1 where
    "append_cells 0 min_area k comps cells = Inr cells1"
    "detect_cells img 0 min_area colors cells1 = Inr cells'"
    by (auto split: sum.splits)
  with Cons.IH [of cells1] append_cells_zero [of min_area k comps cells cells1]
  show ?case by simp
qed

lemma parse_scheme_cell_size_nonzero:
  assumes "parse_scheme img cell_size min_area = Inr out"
  shows "cell_size \<noteq> 0"
proof
  assume z: "cell_size = 0"
  from assms obtain raw where raw: "detect_cells img cell_size min_area COLORS initial_cells = Inr raw"
    and norm: "normalize_coordinates raw \<noteq> Inl ValueError"
    by (auto simp: parse_scheme_def Let_def split: sum.splits)
  from raw z have "raw = initial_cells" using detect_cells_zero by blast
  with norm show False by (simp add: initial_cells_def normalize_coordinates_empty)
qed

lemma normalize_coordinates_frame:
  assumes "normalize_coordinates cells = Inr out"
  shows "map fst out = map fst cells \<and>
     map (\<lambda>(cell_type, cell_list).
            map (\<lambda>c. (pixel_x c, pixel_y c, area c, original_grid_x c, original_grid_y c)) cell_list) out =
     map (\<lambda>(cell_type, cell_list).
            map (\<lambda>c. (pixel_x c, pixel_y c, area c, grid_x c, grid_y c)) cell_list) cells"
proof -
  have "concat (map snd cells) \<noteq> []"
    using assms normalize_coordinates_empty [of cells] by auto
  from normalize_coordinates_nonempty [OF this] assms
  have "out = map (\<lambda>(cell_type, cell_list). (cell_type,
            map (\<lambda>c. \<lparr>grid_x = rank_in (occupied_x cells) (grid_x c),
                     grid_y = rank_in (occupied_y cells) (grid_y c),
                     pixel_x = pixel_x c, pixel_y = pixel_y c, area = area c,
                     original_grid_x = grid_x c, original_grid_y = grid_y c\<rparr>) cell_list)) cells"
    by simp
  then show ?thesis by (simp add: case_prod_unfold comp_def)
qed

text \<open>
  Claim C2, as amended.  The centroid the detector returns for a blob is the arithmetic mean
  of the coordinates of a non-empty list of pixels of the image.  The output record does not
  store it with sub-pixel precision: for every cell, \<open>pixel_x\<close> and \<open>pixel_y\<close> are the
  centroid truncated to integers, \<open>int(center_x)\<close> and \<open>int(center_y)\<close>, which is the floor of
  the mean since the centroid is non-negative; the area is stored unchanged.
\<close>

theorem output_pixel_centroid_truncated:
  assumes "(k, color) \<in> set COLORS"
    and "find_connected_components img color COLOR_TOLERANCE = Inr components"
    and "parse_scheme img cell_size min_area = Inr out"
  shows "(\<forall>(center_x, center_y, a)\<in>set components.
           \<exists>ps. ps \<noteq> [] \<and> set ps \<subseteq> extent img \<and>
             center_x = real_of_int (sum_list (map fst ps)) / real (length ps) \<and>
             center_y = real_of_int (sum_list (map snd ps)) / real (length ps) \<and>
             a = int (length ps)) \<and>
     (\<exists>l. map_of (out_cells out) k = Some l \<and>
        map (\<lambda>c. (pixel_x c, pixel_y c, area c)) l =
          map (\<lambda>(center_x, center_y, a). (\<lfloor>center_x\<rfloor>, \<lfloor>center_y\<rfloor>, a))
            (filter (\<lambda>(center_x, center_y, a). min_area \<le> a) components))"
proof -
  have mean: "\<forall>(center_x, center_y, a)\<in>set components.
           \<exists>ps. ps \<noteq> [] \<and> set ps \<subseteq> extent img \<and>
             center_x = real_of_int (sum_list (map fst ps)) / real (length ps) \<and>
             center_y = real_of_int (sum_list (map snd ps)) / real (length ps) \<and>
             a = int (length ps)"
  proof -
    from find_connected_components_result [of img color COLOR_TOLERANCE] assms(2)
    have "\<forall>c\<in>set components. blob_summary img c" by auto
    then show ?thesis unfolding blob_summary_def centroid_of_def by fastforce
  qed
  have nn: "0 \<le> cx \<and> 0 \<le> cy" if "(cx, cy, a) \<in> set components" for cx cy a
    using detected_components_nonneg [OF assms(2) that] by simp
  have ne: "cell_size \<noteq> 0"
    using assms(3) by (rule parse_scheme_cell_size_nonzero)
  from collected_cells [OF ne assms(1,2), of min_area]
  obtain raw l where run: "detect_cells img cell_size min_area COLORS initial_cells = Inr raw"
    and l: "map_of raw k = Some l"
    and eq: "l = map (\<lambda>(center_x, center_y, a).
               \<lparr>grid_x = py_int (center_x / real_of_int cell_size),
                grid_y = py_int (center_y / real_of_int cell_size),
                pixel_x = py_int center_x, pixel_y = py_int center_y, area = a\<rparr>)
           (filter (\<lambda>(center_x, center_y, a). min_area \<le> a) components)"
    by blast
  let ?f = "\<lambda>c::raw_cell. \<lparr>grid_x = rank_in (occupied_x raw) (grid_x c),
                     grid_y = rank_in (occupied_y raw) (grid_y c),
                     pixel_x = pixel_x c, pixel_y = pixel_y c, area = area c,
                     original_grid_x = grid_x c, original_grid_y = grid_y c\<rparr>"
  from assms(3) run obtain cells where norm: "normalize_coordinates raw = Inr cells"
    and out: "out_cells out = cells"
    by (auto simp: parse_scheme_def Let_def split: sum.splits)
  have "concat (map snd raw) \<noteq> []"
    using norm normalize_coordinates_empty [of raw] by auto
  from normalize_coordinates_nonempty [OF this] norm
  have cells: "cells = map (\<lambda>(cell_type, cell_list). (cell_type, map ?f cell_list)) raw"
    by simp
  have l': "map_of (out_cells out) k = Some (map ?f l)"
    unfolding out cells map_of_map_values using l by simp
  have "map (\<lambda>c. (pixel_x c, pixel_y c, area c)) (map ?f l) =
      map (\<lambda>(center_x, center_y, a). (py_int center_x, py_int center_y, a))
        (filter (\<lambda>(center_x, center_y, a). min_area \<le> a) components)"
    unfolding eq by (simp add: case_prod_unfold comp_def)
  also have "\<dots> = map (\<lambda>(center_x, center_y, a). (\<lfloor>center_x\<rfloor>, \<lfloor>center_y\<rfloor>, a))
            (filter (\<lambda>(center_x, center_y, a). min_area \<le> a) components)"
    by (rule floor_pairs_eq) (use nn in \<open>simp add: py_int_nonneg\<close>)
  finally show ?thesis using mean l' by blast
qed

lemma red_pair_components:
  "find_connected_components red_pair_image [0xDE, 0x1A, 0x03] COLOR_TOLERANCE = Inr [(1 / 2, 0, 2)]"
  by (simp add: red_pair_image_def detector_eval)

lemma red_pair_parse_scheme:
  "parse_scheme red_pair_image 26 1 =
     Inr \<lparr>metadata =
            \<lparr>image_size = \<lparr>width = 2, height = 1\<rparr>, meta_cell_size = 26,
             total_cells = 1, grid_size = \<lparr>width = 1, height = 1\<rparr>\<rparr>,
          out_cells =
            [(AZ, [\<lparr>grid_x = 0, grid_y = 0, pixel_x = 0, pixel_y = 0, area = 2,
                    original_grid_x = 0, original_grid_y = 0\<rparr>]),
             (TK, []), (RR, []), (AR, []), (LAR, []), (USP, [])],
          positions_by_type =
            [(AZ, [''0,0'']), (TK, []), (RR, []), (AR, []), (LAR, []), (USP, [])]\<rparr>"
  by (simp add: red_pair_image_def pipeline_eval)

theorem output_pixel_centroid_truncated_witness:
  "(AZ, [0xDE, 0x1A, 0x03]) \<in> set COLORS \<and>
   find_connected_components red_pair_image [0xDE, 0x1A, 0x03] COLOR_TOLERANCE = Inr [(1 / 2, 0, 2)] \<and>
   (\<exists>out l. parse_scheme red_pair_image 26 1 = Inr out \<and> map_of (out_cells out) AZ = Some l \<and>
      map (\<lambda>c. (pixel_x c, pixel_y c, area c)) l = [(0, 0, 2)])"
proof -
  have h2: "(AZ, [0xDE, 0x1A, 0x03]) \<in> set COLORS" by (simp add: COLORS_def)
  note h3 = red_pair_components
  obtain out where h4: "parse_scheme red_pair_image 26 1 = Inr out"
    using red_pair_parse_scheme by blast
  from output_pixel_centroid_truncated [OF h2 h3 h4]
  obtain l where l: "map_of (out_cells out) AZ = Some l"
    and eq: "map (\<lambda>c. (pixel_x c, pixel_y c, area c)) l =
          map (\<lambda>(center_x, center_y, a). (\<lfloor>center_x\<rfloor>, \<lfloor>center_y\<rfloor>, a))
            (filter (\<lambda>(center_x, center_y, a). 1 \<le> a) [(1 / 2 :: real, 0 :: real, 2::int)])"
    by blast
  from eq have px: "map (\<lambda>c. (pixel_x c, pixel_y c, area c)) l = [(0, 0, 2)]"
    by simp
  from h4 l px
  have "\<exists>out l. parse_scheme red_pair_image 26 1 = Inr out \<and> map_of (out_cells out) AZ = Some l \<and>
      map (\<lambda>c. (pixel_x c, pixel_y c, area c)) l = [(0, 0, 2)]"
    by (intro exI [of _ out] exI [of _ l] conjI)
  with h2 h3 show ?thesis by (intro conjI)
qed

text \<open>
  Counterexample to claim C2 as the specification states it.  The blob of this image has the
  pixels \<open>(0, 0)\<close> and \<open>(1, 0)\<close>; the mean of their x coordinates is \<open>1 / 2\<close>, and the
  output record stores \<open>pixel_x = 0\<close>.
\<close>

theorem output_pixel_x_not_mean_counterexample:
  "find_connected_components red_pair_image [0xDE, 0x1A, 0x03] COLOR_TOLERANCE = Inr [(1 / 2, 0, 2)] \<and>
   parse_scheme red_pair_image 26 1 =
     Inr \<lparr>metadata =
            \<lparr>image_size = \<lparr>width = 2, height = 1\<rparr>, meta_cell_size = 26,
             total_cells = 1, grid_size = \<lparr>width = 1, height = 1\<rparr>\<rparr>,
          out_cells =
            [(AZ, [\<lparr>grid_x = 0, grid_y = 0, pixel_x = 0, pixel_y = 0, area = 2,
                    original_grid_x = 0, original_grid_y = 0\<rparr>]),
             (TK, []), (RR, []), (AR, []), (LAR, []), (USP, [])],
          positions_by_type =
            [(AZ, [''0,0'']), (TK, []), (RR, []), (AR, []), (LAR, []), (USP, [])]\<rparr> \<and>
   real_of_int 0 \<noteq> 1 / 2"
  using red_pair_components red_pair_parse_scheme by simp

section \<open>Images whose matching pixels are pairwise not 4-adjacent\<close>

lemma flood_fill_loop_skip:
  assumes "(x, y) \<in> visited \<or> (x, y) \<notin> extent img \<or>
           \<not> matches_color target_color tolerance (pixels img (x, y))"
  shows "flood_fill_loop img target_color tolerance ((x, y) # queue) visited component_pixels =
         flood_fill_loop img target_color tolerance queue visited component_pixels"
  using assms by (auto simp: flood_fill_loop.simps(2) extent_def pixel_access_def)

lemma flood_fill_isolated:
  assumes inx: "(x, y) \<in> extent img" and nv: "(x, y) \<notin> visited"
    and m: "matches_color target_color tolerance (pixels img (x, y))"
    and nb: "\<And>n. n \<in> {(x + 1, y), (x - 1, y), (x, y + 1), (x, y - 1)} \<Longrightarrow>
               n \<notin> extent img \<or> \<not> matches_color target_color tolerance (pixels img n)"
  shows "flood_fill img target_color tolerance visited x y =
           Inr (insert (x, y) visited, Some (real_of_int x, real_of_int y, 1))"
proof -
  have inb: "\<not> (x < 0 \<or> x \<ge> width img \<or> y < 0 \<or> y \<ge> height img)"
    using inx by (simp add: extent_def)
  let ?v = "insert (x, y) visited"
  have "flood_fill_loop img target_color tolerance [(x, y)] visited [] =
        flood_fill_loop img target_color tolerance
          [(x + 1, y), (x - 1, y), (x, y + 1), (x, y - 1)] ?v [(x, y)]"
    using nv m inb by (subst flood_fill_loop.simps(2)) (simp add: pixel_access_in)
  also have "\<dots> = flood_fill_loop img target_color tolerance
          [(x - 1, y), (x, y + 1), (x, y - 1)] ?v [(x, y)]"
    using nb [of "(x + 1, y)"] by (intro flood_fill_loop_skip) auto
  also have "\<dots> = flood_fill_loop img target_color tolerance
          [(x, y + 1), (x, y - 1)] ?v [(x, y)]"
    using nb [of "(x - 1, y)"] by (intro flood_fill_loop_skip) auto
  also have "\<dots> = flood_fill_loop img target_color tolerance [(x, y - 1)] ?v [(x, y)]"
    using nb [of "(x, y + 1)"] by (intro flood_fill_loop_skip) auto
  also have "\<dots> = flood_fill_loop img target_color tolerance [] ?v [(x, y)]"
    using nb [of "(x, y - 1)"] by (intro flood_fill_loop_skip) auto
  also have "\<dots> = Inr (?v, [(x, y)])"
    by (simp add: flood_fill_loop.simps(1))
  finally have loop: "flood_fill_loop img target_color tolerance [(x, y)] visited [] =
      Inr (?v, [(x, y)])" .
  show ?thesis
    using nv m inb by (simp add: flood_fill_def pixel_access_in loop)
qed

lemma scan_isolated:
  assumes iso: "\<And>x y n. (x, y) \<in> extent img \<Longrightarrow>
                 matches_color target_color tolerance (pixels img (x, y)) \<Longrightarrow>
                 n \<in> {(x + 1, y), (x - 1, y), (x, y + 1), (x, y - 1)} \<Longrightarrow>
                 n \<notin> extent img \<or> \<not> matches_color target_color tolerance (pixels img n)"
    and "set coords \<subseteq> extent img" "distinct coords" "set coords \<inter> visited = {}"
  shows "scan img target_color tolerance coords visited components =
           Inr (visited \<union> set (filter (\<lambda>p. matches_color target_color tolerance (pixels img p)) coords),
                components @ map (\<lambda>(x, y). (real_of_int x, real_of_int y, 1))
                  (filter (\<lambda>p. matches_color target_color tolerance (pixels img p)) coords))"
  using assms(2-)
proof (induction coords arbitrary: visited components)
  case Nil
  then show ?case by simp
next
  case (Cons p coords)
  obtain x y where p: "p = (x, y)" by (cases p)
  from Cons.prems p have inx: "(x, y) \<in> extent img" and nv: "(x, y) \<notin> visited"
    and rest: "set coords \<subseteq> extent img" "distinct coords" and notin: "(x, y) \<notin> set coords"
    and disj: "set coords \<inter> visited = {}"
    by auto
  have inb: "\<not> (x < 0 \<or> x \<ge> width img \<or> y < 0 \<or> y \<ge> height img)"
    using inx by (simp add: extent_def)
  show ?case
  proof (cases "matches_color target_color tolerance (pixels img (x, y))")
    case False
    then have "flood_fill img target_color tolerance visited x y = Inr (visited, None)"
      using nv inb by (simp add: flood_fill_def pixel_access_in)
    with Cons.IH [OF rest disj, of components] False p nv show ?thesis by simp
  next
    case True
    have ff: "flood_fill img target_color tolerance visited x y =
           Inr (insert (x, y) visited, Some (real_of_int x, real_of_int y, 1))"
      using inx nv True iso [OF inx True] by (rule flood_fill_isolated)
    have disj': "set coords \<inter> insert (x, y) visited = {}" using disj notin by auto
    from Cons.IH [OF rest disj', of "components @ [(real_of_int x, real_of_int y, 1)]"] ff True p nv
    show ?thesis by simp
  qed
qed

lemma raster_product:
  "raster img = map prod.swap (List.product [0..height img - 1] [0..width img - 1])"
  by (simp add: raster_def List.product_concat_map map_concat comp_def)

lemma distinct_raster: "distinct (raster img)"
  unfolding raster_product
  by (simp add: distinct_map distinct_product)

lemma find_connected_components_isolated:
  assumes "\<And>x y n. (x, y) \<in> extent img \<Longrightarrow>
                 matches_color target_color tolerance (pixels img (x, y)) \<Longrightarrow>
                 n \<in> {(x + 1, y), (x - 1, y), (x, y + 1), (x, y - 1)} \<Longrightarrow>
                 n \<notin> extent img \<or> \<not> matches_color target_color tolerance (pixels img n)"
  shows "find_connected_components img target_color tolerance =
           Inr (map (\<lambda>(x, y). (real_of_int x, real_of_int y, 1))
                  (filter (\<lambda>p. matches_color target_color tolerance (pixels img p)) (raster img)))"
proof -
  have "scan img target_color tolerance (raster img) {} [] =
           Inr ({} \<union> set (filter (\<lambda>p. matches_color target_color tolerance (pixels img p)) (raster img)),
                [] @ map (\<lambda>(x, y). (real_of_int x, real_of_int y, 1))
                  (filter (\<lambda>p. matches_color target_color tolerance (pixels img p)) (raster img)))"
    using assms by (intro scan_isolated) (simp_all add: set_raster distinct_raster)
  then show ?thesis by (simp add: find_connected_components_def)
qed

text \<open>Two diagonal neighbours that are the only matching pixels of the image.\<close>

lemma diagonal_pair_only:
  assumes a: "0 \<le> xa \<and> xa < width img \<and> 0 \<le> ya \<and> ya < height img"
    and b: "0 \<le> xb \<and> xb < width img \<and> 0 \<le> yb \<and> yb < height img"
    and diag: "\<bar>xa - xb\<bar> = 1 \<and> \<bar>ya - yb\<bar> = 1"
    and only: "\<forall>x y. 0 \<le> x \<and> x < width img \<and> 0 \<le> y \<and> y < height img \<longrightarrow>
                 (matches_color target_color tolerance (pixels img (x, y)) \<longleftrightarrow>
                    (x, y) = (xa, ya) \<or> (x, y) = (xb, yb))"
  shows "\<exists>components. find_connected_components img target_color tolerance = Inr components \<and>
           length components = 2 \<and>
           set components = {(real_of_int xa, real_of_int ya, 1), (real_of_int xb, real_of_int yb, 1)}"
proof -
  let ?M = "\<lambda>p. matches_color target_color tolerance (pixels img p)"
  let ?unit = "\<lambda>(x, y). (real_of_int x, real_of_int y, 1::int)"
  have M: "?M (x, y) \<longleftrightarrow> (x, y) = (xa, ya) \<or> (x, y) = (xb, yb)" if "(x, y) \<in> extent img" for x y
    using that only by (simp add: extent_def)
  have iso: "n \<notin> extent img \<or> \<not> ?M n"
    if "(x, y) \<in> extent img" "?M (x, y)" "n \<in> {(x + 1, y), (x - 1, y), (x, y + 1), (x, y - 1)}"
    for x y n
  proof (cases "n \<in> extent img")
    case False
    then show ?thesis by simp
  next
    case True
    obtain u v where n: "n = (u, v)" by (cases n)
    from that(1,2) have xy: "(x, y) = (xa, ya) \<or> (x, y) = (xb, yb)" by (simp add: M)
    have adj: "\<bar>u - x\<bar> + \<bar>v - y\<bar> = 1" using that(3) n by auto
    have "\<not> ((u, v) = (xa, ya) \<or> (u, v) = (xb, yb))"
      using xy adj diag by auto
    with True n show ?thesis by (simp add: M)
  qed
  have run: "find_connected_components img target_color tolerance =
      Inr (map ?unit (filter ?M (raster img)))"
    using iso by (rule find_connected_components_isolated)
  have ab: "(xa, ya) \<in> extent img" "(xb, yb) \<in> extent img" "(xa, ya) \<noteq> (xb, yb)"
    using a b diag by (auto simp: extent_def)
  have set: "set (filter ?M (raster img)) = {(xa, ya), (xb, yb)}"
    using ab M by (auto simp: set_raster)
  have "distinct (filter ?M (raster img))" by (simp add: distinct_raster)
  then have "length (filter ?M (raster img)) = card {(xa, ya), (xb, yb)}"
    using set by (metis distinct_card)
  then have len: "length (map ?unit (filter ?M (raster img))) = 2" using ab(3) by simp
  have "set (map ?unit (filter ?M (raster img))) = ?unit ` {(xa, ya), (xb, yb)}"
    by (simp only: set_map set)
  then have "set (map ?unit (filter ?M (raster img))) =
      {(real_of_int xa, real_of_int ya, 1), (real_of_int xb, real_of_int yb, 1)}"
    by simp
  with run len show ?thesis by blast
qed

section \<open>Dependence on the image content\<close>

lemma same_content_access:
  assumes "same_content img1 img2"
  shows "pixel_access img1 x y = pixel_access img2 x y"
  using assms by (auto simp: same_content_def pixel_access_def extent_def)

lemma flood_fill_loop_same_content:
  "same_content img img2 \<Longrightarrow>
     flood_fill_loop img target_color tolerance queue visited component_pixels =
     flood_fill_loop img2 target_color tolerance queue visited component_pixels"
proof (induction img target_color tolerance queue visited component_pixels
    rule: flood_fill_loop.induct)
  case (1 img target_color tolerance visited component_pixels)
  show ?case by (simp add: flood_fill_loop.simps(1))
next
  case (2 img target_color tolerance x y queue visited component_pixels)
  note sc = "2.prems"
  have wh: "width img = width img2" "height img = height img2"
    using sc by (simp_all add: same_content_def)
  have acc: "pixel_access img x y = pixel_access img2 x y"
    using sc by (rule same_content_access)
  show ?case
  proof (cases "(x, y) \<in> visited")
    case True
    with "2.IH"(1) sc show ?thesis by (simp add: flood_fill_loop.simps(2))
  next
    case nv: False
    show ?thesis
    proof (cases "x < 0 \<or> x \<ge> width img \<or> y < 0 \<or> y \<ge> height img")
      case True
      with nv "2.IH"(2) sc wh show ?thesis by (simp add: flood_fill_loop.simps(2))
    next
      case inb: False
      then have a1: "pixel_access img x y = Inr (pixels img (x, y))"
        by (rule pixel_access_in)
      show ?thesis
      proof (cases "matches_color target_color tolerance (pixels img (x, y))")
        case True
        with nv inb a1 acc "2.IH"(4) sc wh show ?thesis
          by (simp add: flood_fill_loop.simps(2))
      next
        case False
        with nv inb a1 acc "2.IH"(3) sc wh show ?thesis
          by (simp add: flood_fill_loop.simps(2))
      qed
    qed
  qed
qed

lemma flood_fill_same_content:
  assumes "same_content img1 img2"
  shows "flood_fill img1 target_color tolerance visited x y =
         flood_fill img2 target_color tolerance visited x y"
  unfolding flood_fill_def
  by (simp only: same_content_access [OF assms] flood_fill_loop_same_content [OF assms])

lemma scan_same_content:
  assumes "same_content img1 img2"
  shows "scan img1 target_color tolerance coords visited components =
         scan img2 target_color tolerance coords visited components"
  by (induction coords arbitrary: visited components)
     (auto simp: flood_fill_same_content [OF assms] split: sum.splits option.splits)

lemma find_connected_components_same_content:
  assumes "same_content img1 img2"
  shows "find_connected_components img1 target_color tolerance =
         find_connected_components img2 target_color tolerance"
proof -
  have "raster img1 = raster img2"
    using assms by (simp add: raster_def same_content_def)
  then show ?thesis
    by (simp add: find_connected_components_def scan_same_content [OF assms])
qed

lemma detect_cells_same_content:
  assumes "same_content img1 img2"
  shows "detect_cells img1 cell_size min_area colors cells =
         detect_cells img2 cell_size min_area colors cells"
  by (induction colors arbitrary: cells)
     (auto simp: find_connected_components_same_content [OF assms] split: sum.splits)

text \<open>
  The output of \<open>parse_scheme\<close> depends on the image only through its size and its pixels
  inside the extent.
\<close>

lemma parse_scheme_same_content:
  assumes "same_content img1 img2"
  shows "parse_scheme img1 cell_size min_area = parse_scheme img2 cell_size min_area"
proof -
  have wh: "width img1 = width img2" "height img1 = height img2"
    using assms by (simp_all add: same_content_def)
  show ?thesis
    by (simp only: parse_scheme_def detect_cells_same_content [OF assms] wh)
qed

section \<open>Pixels without a matching 4-neighbour\<close>

text \<open>A fill never visits a pixel that is not queued and has no matching 4-neighbour in the extent.\<close>

lemma flood_fill_loop_avoids:
  assumes "flood_fill_loop img target_color tolerance queue visited component_pixels = Inr (visited', pixels')"
    and "\<And>x y. (x, y) \<in> extent img \<Longrightarrow> matches_color target_color tolerance (pixels img (x, y)) \<Longrightarrow>
           p \<notin> {(x + 1, y), (x - 1, y), (x, y + 1), (x, y - 1)}"
    and "p \<notin> visited" "p \<notin> set queue"
  shows "p \<notin> visited'"
  using assms
proof (induction img target_color tolerance queue visited component_pixels
    rule: flood_fill_loop.induct)
  case (1 img target_color tolerance visited component_pixels)
  then show ?case by (simp add: flood_fill_loop.simps(1))
next
  case (2 img target_color tolerance x y queue visited component_pixels)
  note run = "2.prems"(1) and iso = "2.prems"(2) and pv = "2.prems"(3)
  from "2.prems"(4) have pxy: "p \<noteq> (x, y)" and pq: "p \<notin> set queue" by auto
  show ?case
  proof (cases "(x, y) \<in> visited")
    case True
    with run have "flood_fill_loop img target_color tolerance queue visited component_pixels = Inr (visited', pixels')"
      by (simp add: flood_fill_loop.simps(2))
    from "2.IH"(1) [OF True this iso pv pq] show ?thesis .
  next
    case nv: False
    show ?thesis
    proof (cases "x < 0 \<or> x \<ge> width img \<or> y < 0 \<or> y \<ge> height img")
      case True
      with nv run have "flood_fill_loop img target_color tolerance queue visited component_pixels = Inr (visited', pixels')"
        by (simp add: flood_fill_loop.simps(2))
      from "2.IH"(2) [OF nv True this iso pv pq] show ?thesis .
    next
      case inb: False
      then have acc: "pixel_access img x y = Inr (pixels img (x, y))"
        by (rule pixel_access_in)
      have inx: "(x, y) \<in> extent img" using inb by (simp add: extent_def)
      show ?thesis
      proof (cases "matches_color target_color tolerance (pixels img (x, y))")
        case False
        with nv inb acc run
        have "flood_fill_loop img target_color tolerance queue visited component_pixels = Inr (visited', pixels')"
          by (simp add: flood_fill_loop.simps(2))
        from "2.IH"(3) [OF nv inb acc False this iso pv pq] show ?thesis .
      next
        case True
        with nv inb acc run
        have r: "flood_fill_loop img target_color tolerance
                (queue @ [(x + 1, y), (x - 1, y), (x, y + 1), (x, y - 1)])
                (insert (x, y) visited) (component_pixels @ [(x, y)]) = Inr (visited', pixels')"
          by (simp add: flood_fill_loop.simps(2))
        have pv': "p \<notin> insert (x, y) visited" using pv pxy by simp
        have "p \<notin> {(x + 1, y), (x - 1, y), (x, y + 1), (x, y - 1)}"
          using inx True by (rule iso)
        with pq have pq': "p \<notin> set (queue @ [(x + 1, y), (x - 1, y), (x, y + 1), (x, y - 1)])"
          by simp
        have m: "\<not> \<not> matches_color target_color tolerance (pixels img (x, y))" using True by simp
        from "2.IH"(4) [OF nv inb acc m r iso pv' pq'] show ?thesis .
      qed
    qed
  qed
qed

lemma flood_fill_avoids:
  assumes "flood_fill img target_color tolerance visited x y = Inr (visited', r)"
    and "\<And>x y. (x, y) \<in> extent img \<Longrightarrow> matches_color target_color tolerance (pixels img (x, y)) \<Longrightarrow>
           p \<notin> {(x + 1, y), (x - 1, y), (x, y + 1), (x, y - 1)}"
    and "p \<notin> visited" "p \<noteq> (x, y)"
  shows "p \<notin> visited'"
proof (cases "\<exists>v c. flood_fill_loop img target_color tolerance [(x, y)] visited [] = Inr (v, c) \<and> v = visited'")
  case True
  then obtain c where "flood_fill_loop img target_color tolerance [(x, y)] visited [] = Inr (visited', c)"
    by blast
  from flood_fill_loop_avoids [OF this assms(2,3)] assms(4) show ?thesis by simp
next
  case False
  with assms(1) have "visited' = visited"
    by (auto simp: flood_fill_def Let_def split: if_splits sum.splits prod.splits)
  with assms(3) show ?thesis by simp
qed

lemma scan_unit_component:
  assumes inx: "(px, py) \<in> extent img"
    and m: "matches_color target_color tolerance (pixels img (px, py))"
    and nb: "\<And>n. n \<in> {(px + 1, py), (px - 1, py), (px, py + 1), (px, py - 1)} \<Longrightarrow>
               n \<notin> extent img \<or> \<not> matches_color target_color tolerance (pixels img n)"
    and "set coords \<subseteq> extent img" "(px, py) \<in> set coords" "(px, py) \<notin> visited"
  shows "\<exists>visited' components'. scan img target_color tolerance coords visited components =
            Inr (visited', components') \<and> (real_of_int px, real_of_int py, 1) \<in> set components'"
  using assms(4-)
proof (induction coords arbitrary: visited components)
  case Nil
  then show ?case by simp
next
  case (Cons q coords)
  obtain x y where q: "q = (x, y)" by (cases q)
  from Cons.prems q have qx: "(x, y) \<in> extent img" and rest: "set coords \<subseteq> extent img"
    by simp_all
  have avoid: "(px, py) \<notin> {(u + 1, v), (u - 1, v), (u, v + 1), (u, v - 1)}"
    if "(u, v) \<in> extent img" "matches_color target_color tolerance (pixels img (u, v))" for u v
  proof
    assume "(px, py) \<in> {(u + 1, v), (u - 1, v), (u, v + 1), (u, v - 1)}"
    then have "(u, v) \<in> {(px + 1, py), (px - 1, py), (px, py + 1), (px, py - 1)}" by auto
    from nb [OF this] that show False by simp
  qed
  show ?case
  proof (cases "(x, y) = (px, py)")
    case True
    have ff: "flood_fill img target_color tolerance visited px py =
           Inr (insert (px, py) visited, Some (real_of_int px, real_of_int py, 1))"
      using inx Cons.prems(3) m nb by (rule flood_fill_isolated)
    from scan_result [OF rest, of target_color tolerance "insert (px, py) visited"
        "components @ [(real_of_int px, real_of_int py, 1)]"]
    obtain visited' new where "scan img target_color tolerance coords (insert (px, py) visited)
        (components @ [(real_of_int px, real_of_int py, 1)]) =
          Inr (visited', (components @ [(real_of_int px, real_of_int py, 1)]) @ new)"
      by blast
    with ff True q Cons.prems(3) show ?thesis by simp
  next
    case False
    with Cons.prems(2) q have pin: "(px, py) \<in> set coords" by auto
    show ?thesis
    proof (cases "(x, y) \<in> visited")
      case True
      with Cons.IH [OF rest pin Cons.prems(3), of components] q show ?thesis by simp
    next
      case nv: False
      from flood_fill_result [OF qx, of target_color tolerance visited]
      obtain v1 r where ff: "flood_fill img target_color tolerance visited x y = Inr (v1, r)"
        by blast
      have neq: "(px, py) \<noteq> (x, y)" using False by auto
      have pv1: "(px, py) \<notin> v1"
        using ff avoid Cons.prems(3) neq by (rule flood_fill_avoids)
      show ?thesis
      proof (cases r)
        case None
        with Cons.IH [OF rest pin pv1, of components] q nv ff show ?thesis by simp
      next
        case (Some c)
        with Cons.IH [OF rest pin pv1, of "components @ [c]"] q nv ff show ?thesis by simp
      qed
    qed
  qed
qed

lemma find_connected_components_unit:
  assumes "(px, py) \<in> extent img"
    and "matches_color target_color tolerance (pixels img (px, py))"
    and "\<And>n. n \<in> {(px + 1, py), (px - 1, py), (px, py + 1), (px, py - 1)} \<Longrightarrow>
               n \<notin> extent img \<or> \<not> matches_color target_color tolerance (pixels img n)"
    and "find_connected_components img target_color tolerance = Inr components"
  shows "(real_of_int px, real_of_int py, 1) \<in> set components"
proof -
  have "set (raster img) \<subseteq> extent img" "(px, py) \<in> set (raster img)" "(px, py) \<notin> {}"
    using assms(1) by (simp_all add: set_raster)
  from scan_unit_component [OF assms(1,2,3) this, of "[]"] assms(4)
  show ?thesis by (auto simp: find_connected_components_def)
qed

section \<open>Blobs are the classes of 4-neighbour adjacency\<close>

lemma adjacent4_sym:
  "(p, q) \<in> adjacent4 img target_color tolerance \<Longrightarrow> (q, p) \<in> adjacent4 img target_color tolerance"
  by (auto simp: adjacent4_def)

lemma adjacent4_rtrancl_sym:
  assumes "(p, q) \<in> (adjacent4 img target_color tolerance)\<^sup>*"
  shows "(q, p) \<in> (adjacent4 img target_color tolerance)\<^sup>*"
proof -
  have "sym (adjacent4 img target_color tolerance)"
    by (rule symI) (rule adjacent4_sym)
  then have "sym ((adjacent4 img target_color tolerance)\<^sup>*)" by (rule sym_rtrancl)
  with assms show ?thesis by (rule symD [rotated])
qed

lemma adjacent4_matching:
  "(p, q) \<in> adjacent4 img target_color tolerance \<Longrightarrow>
     p \<in> matching_pixels img target_color tolerance \<and> q \<in> matching_pixels img target_color tolerance"
  by (auto simp: adjacent4_def)

lemma rtrancl_matching_back:
  assumes "(q, p) \<in> (adjacent4 img target_color tolerance)\<^sup>*"
    and "p \<in> matching_pixels img target_color tolerance"
  shows "q \<in> matching_pixels img target_color tolerance"
  using assms by (induction rule: converse_rtrancl_induct) (auto dest: adjacent4_matching)

lemma adjacent4_neighbour:
  assumes "(x, y) \<in> matching_pixels img target_color tolerance"
    and "q \<in> matching_pixels img target_color tolerance"
    and "q \<in> {(x + 1, y), (x - 1, y), (x, y + 1), (x, y - 1)}"
  shows "((x, y), q) \<in> adjacent4 img target_color tolerance"
  using assms by (auto simp: adjacent4_def)

lemma adjacent4_neighbourD:
  assumes "((x, y), q) \<in> adjacent4 img target_color tolerance"
  shows "q \<in> {(x + 1, y), (x - 1, y), (x, y + 1), (x, y - 1)}"
proof -
  obtain u v where q: "q = (u, v)" by (cases q)
  from assms q have "\<bar>x - u\<bar> + \<bar>y - v\<bar> = 1" by (simp add: adjacent4_def)
  then have "(u = x + 1 \<and> v = y) \<or> (u = x - 1 \<and> v = y) \<or> (u = x \<and> v = y + 1) \<or> (u = x \<and> v = y - 1)"
    by arith
  with q show ?thesis by auto
qed

text \<open>Every pixel a fill adds is joined to a queued pixel by a chain of 4-neighbour steps.\<close>

lemma flood_fill_loop_sound:
  assumes "flood_fill_loop img target_color tolerance queue visited component_pixels = Inr (visited', pixels')"
  shows "\<forall>p\<in>visited' - visited. \<exists>q\<in>set queue. (q, p) \<in> (adjacent4 img target_color tolerance)\<^sup>*"
  using assms
proof (induction img target_color tolerance queue visited component_pixels
    rule: flood_fill_loop.induct)
  case (1 img target_color tolerance visited component_pixels)
  then show ?case by (simp add: flood_fill_loop.simps(1))
next
  case (2 img target_color tolerance x y queue visited component_pixels)
  note run = "2.prems"
  show ?case
  proof (cases "(x, y) \<in> visited")
    case True
    with run have "flood_fill_loop img target_color tolerance queue visited component_pixels = Inr (visited', pixels')"
      by (simp add: flood_fill_loop.simps(2))
    from "2.IH"(1) [OF True this] show ?thesis by auto
  next
    case nv: False
    show ?thesis
    proof (cases "x < 0 \<or> x \<ge> width img \<or> y < 0 \<or> y \<ge> height img")
      case True
      with nv run have "flood_fill_loop img target_color tolerance queue visited component_pixels = Inr (visited', pixels')"
        by (simp add: flood_fill_loop.simps(2))
      from "2.IH"(2) [OF nv True this] show ?thesis by auto
    next
      case inb: False
      then have acc: "pixel_access img x y = Inr (pixels img (x, y))"
        by (rule pixel_access_in)
      have inx: "(x, y) \<in> extent img" using inb by (simp add: extent_def)
      show ?thesis
      proof (cases "matches_color target_color tolerance (pixels img (x, y))")
        case False
        with nv inb acc run
        have "flood_fill_loop img target_color tolerance queue visited component_pixels = Inr (visited', pixels')"
          by (simp add: flood_fill_loop.simps(2))
        from "2.IH"(3) [OF nv inb acc False this] show ?thesis by auto
      next
        case True
        let ?M = "matching_pixels img target_color tolerance"
        let ?R = "adjacent4 img target_color tolerance"
        have xyM: "(x, y) \<in> ?M" using inx True by (simp add: matching_pixels_def)
        from nv inb acc run True
        have r: "flood_fill_loop img target_color tolerance
                (queue @ [(x + 1, y), (x - 1, y), (x, y + 1), (x, y - 1)])
                (insert (x, y) visited) (component_pixels @ [(x, y)]) = Inr (visited', pixels')"
          by (simp add: flood_fill_loop.simps(2))
        have m: "\<not> \<not> matches_color target_color tolerance (pixels img (x, y))" using True by simp
        note ih = "2.IH"(4) [OF nv inb acc m r]
        from flood_fill_loop_inv [OF run]
        have newM: "visited' - visited \<subseteq> ?M"
          by (auto simp: matching_pixels_def)
        show ?thesis
        proof
          fix p assume p: "p \<in> visited' - visited"
          show "\<exists>q\<in>set ((x, y) # queue). (q, p) \<in> ?R\<^sup>*"
          proof (cases "p = (x, y)")
            case True
            then show ?thesis by auto
          next
            case False
            with p have "p \<in> visited' - insert (x, y) visited" by simp
            with ih obtain q where q: "q \<in> set (queue @ [(x + 1, y), (x - 1, y), (x, y + 1), (x, y - 1)])"
              and qp: "(q, p) \<in> ?R\<^sup>*"
              by blast
            show ?thesis
            proof (cases "q \<in> set queue")
              case True
              with qp show ?thesis by auto
            next
              case False
              with q have qn: "q \<in> {(x + 1, y), (x - 1, y), (x, y + 1), (x, y - 1)}" by auto
              have "p \<in> ?M" using p newM by blast
              with qp have "q \<in> ?M" by (rule rtrancl_matching_back)
              with xyM qn have "((x, y), q) \<in> ?R" by (intro adjacent4_neighbour)
              then have "((x, y), p) \<in> ?R\<^sup>*" using qp by (rule converse_rtrancl_into_rtrancl)
              then show ?thesis by auto
            qed
          qed
        qed
      qed
    qed
  qed
qed

text \<open>
  When the loop ends, every matching 4-neighbour of a visited pixel is visited, provided this
  held up to the queue at the start; and every queued matching pixel is visited.
\<close>

lemma flood_fill_loop_complete:
  assumes "flood_fill_loop img target_color tolerance queue visited component_pixels = Inr (visited', pixels')"
    and "\<forall>p\<in>visited. \<forall>q. (p, q) \<in> adjacent4 img target_color tolerance \<longrightarrow>
           q \<in> visited \<or> q \<in> set queue"
  shows "(\<forall>p\<in>visited'. \<forall>q. (p, q) \<in> adjacent4 img target_color tolerance \<longrightarrow> q \<in> visited') \<and>
         (\<forall>q\<in>set queue. q \<in> matching_pixels img target_color tolerance \<longrightarrow> q \<in> visited')"
  using assms
proof (induction img target_color tolerance queue visited component_pixels
    rule: flood_fill_loop.induct)
  case (1 img target_color tolerance visited component_pixels)
  then show ?case by (simp add: flood_fill_loop.simps(1))
next
  case (2 img target_color tolerance x y queue visited component_pixels)
  note run = "2.prems"(1) and hyp = "2.prems"(2)
  let ?M = "matching_pixels img target_color tolerance"
  let ?R = "adjacent4 img target_color tolerance"
  from flood_fill_loop_inv [OF run] have mono: "visited \<subseteq> visited'" by auto
  show ?case
  proof (cases "(x, y) \<in> visited")
    case True
    with run have r: "flood_fill_loop img target_color tolerance queue visited component_pixels = Inr (visited', pixels')"
      by (simp add: flood_fill_loop.simps(2))
    have h: "\<forall>p\<in>visited. \<forall>q. (p, q) \<in> ?R \<longrightarrow> q \<in> visited \<or> q \<in> set queue"
      using hyp True by auto
    from "2.IH"(1) [OF True r h] True mono show ?thesis by auto
  next
    case nv: False
    show ?thesis
    proof (cases "x < 0 \<or> x \<ge> width img \<or> y < 0 \<or> y \<ge> height img")
      case True
      with nv run have r: "flood_fill_loop img target_color tolerance queue visited component_pixels = Inr (visited', pixels')"
        by (simp add: flood_fill_loop.simps(2))
      have notM: "(x, y) \<notin> ?M" using True by (auto simp: matching_pixels_def extent_def)
      have h: "\<forall>p\<in>visited. \<forall>q. (p, q) \<in> ?R \<longrightarrow> q \<in> visited \<or> q \<in> set queue"
      proof (intro ballI allI impI)
        fix p q assume "p \<in> visited" "(p, q) \<in> ?R"
        with hyp have "q \<in> visited \<or> q \<in> set ((x, y) # queue)" by blast
        moreover have "q \<in> ?M" using \<open>(p, q) \<in> ?R\<close> by (simp add: adjacent4_matching)
        ultimately show "q \<in> visited \<or> q \<in> set queue" using notM by auto
      qed
      from "2.IH"(2) [OF nv True r h] notM show ?thesis by auto
    next
      case inb: False
      then have acc: "pixel_access img x y = Inr (pixels img (x, y))"
        by (rule pixel_access_in)
      have inx: "(x, y) \<in> extent img" using inb by (simp add: extent_def)
      show ?thesis
      proof (cases "matches_color target_color tolerance (pixels img (x, y))")
        case False
        with nv inb acc run
        have r: "flood_fill_loop img target_color tolerance queue visited component_pixels = Inr (visited', pixels')"
          by (simp add: flood_fill_loop.simps(2))
        have notM: "(x, y) \<notin> ?M" using False by (simp add: matching_pixels_def)
        have h: "\<forall>p\<in>visited. \<forall>q. (p, q) \<in> ?R \<longrightarrow> q \<in> visited \<or> q \<in> set queue"
        proof (intro ballI allI impI)
          fix p q assume "p \<in> visited" "(p, q) \<in> ?R"
          with hyp have "q \<in> visited \<or> q \<in> set ((x, y) # queue)" by blast
          moreover have "q \<in> ?M" using \<open>(p, q) \<in> ?R\<close> by (simp add: adjacent4_matching)
          ultimately show "q \<in> visited \<or> q \<in> set queue" using notM by auto
        qed
        from "2.IH"(3) [OF nv inb acc False r h] notM show ?thesis by auto
      next
        case True
        from nv inb acc run True
        have r: "flood_fill_loop img target_color tolerance
                (queue @ [(x + 1, y), (x - 1, y), (x, y + 1), (x, y - 1)])
                (insert (x, y) visited) (component_pixels @ [(x, y)]) = Inr (visited', pixels')"
          by (simp add: flood_fill_loop.simps(2))
        have m: "\<not> \<not> matches_color target_color tolerance (pixels img (x, y))" using True by simp
        have h: "\<forall>p\<in>insert (x, y) visited. \<forall>q. (p, q) \<in> ?R \<longrightarrow>
            q \<in> insert (x, y) visited \<or> q \<in> set (queue @ [(x + 1, y), (x - 1, y), (x, y + 1), (x, y - 1)])"
        proof (intro ballI allI impI)
          fix p q assume p: "p \<in> insert (x, y) visited" and pq: "(p, q) \<in> ?R"
          show "q \<in> insert (x, y) visited \<or> q \<in> set (queue @ [(x + 1, y), (x - 1, y), (x, y + 1), (x, y - 1)])"
          proof (cases "p = (x, y)")
            case True
            with pq have "q \<in> {(x + 1, y), (x - 1, y), (x, y + 1), (x, y - 1)}"
              by (intro adjacent4_neighbourD) simp
            then show ?thesis by auto
          next
            case False
            with p have "p \<in> visited" by simp
            with hyp pq have "q \<in> visited \<or> q \<in> set ((x, y) # queue)" by blast
            then show ?thesis by auto
          qed
        qed
        from flood_fill_loop_inv [OF r] have "(x, y) \<in> visited'" by auto
        with "2.IH"(4) [OF nv inb acc m r h] show ?thesis by auto
      qed
    qed
  qed
qed

text \<open>
  A fill started at an unvisited matching pixel, when the visited pixels are closed under
  the adjacency, collects exactly the pixels joined to the start pixel.
\<close>

lemma flood_fill_class:
  assumes s: "(x, y) \<in> matching_pixels img target_color tolerance" and nv: "(x, y) \<notin> visited"
    and closed: "\<forall>p\<in>visited. \<forall>q. (p, q) \<in> adjacent4 img target_color tolerance \<longrightarrow> q \<in> visited"
  shows "\<exists>ps. flood_fill img target_color tolerance visited x y =
              Inr (visited \<union> set ps, Some (centroid_of ps)) \<and>
            ps \<noteq> [] \<and> distinct ps \<and> set ps \<inter> visited = {} \<and>
            set ps = {q. ((x, y), q) \<in> (adjacent4 img target_color tolerance)\<^sup>*} \<and>
            (\<forall>p\<in>visited \<union> set ps. \<forall>q. (p, q) \<in> adjacent4 img target_color tolerance \<longrightarrow>
               q \<in> visited \<union> set ps)"
proof -
  let ?M = "matching_pixels img target_color tolerance"
  let ?R = "adjacent4 img target_color tolerance"
  from s have inx: "(x, y) \<in> extent img" and m: "matches_color target_color tolerance (pixels img (x, y))"
    by (simp_all add: matching_pixels_def)
  have inb: "\<not> (x < 0 \<or> x \<ge> width img \<or> y < 0 \<or> y \<ge> height img)"
    using inx by (simp add: extent_def)
  obtain visited' pixels' where run:
    "flood_fill_loop img target_color tolerance [(x, y)] visited [] = Inr (visited', pixels')"
    using flood_fill_loop_returns [of img target_color tolerance "[(x, y)]" visited "[]"]
    by (cases "flood_fill_loop img target_color tolerance [(x, y)] visited []") auto
  from flood_fill_loop_inv [OF run]
  have v': "visited' = visited \<union> set pixels'" and sub: "set pixels' \<subseteq> extent img - visited"
    and dist: "distinct pixels'" and match: "\<forall>p\<in>set pixels'. matches_color target_color tolerance (pixels img p)"
    by auto
  have h: "\<forall>p\<in>visited. \<forall>q. (p, q) \<in> ?R \<longrightarrow> q \<in> visited \<or> q \<in> set [(x, y)]"
    using closed by blast
  from flood_fill_loop_complete [OF run h] s
  have closed': "\<forall>p\<in>visited'. \<forall>q. (p, q) \<in> ?R \<longrightarrow> q \<in> visited'" and sv: "(x, y) \<in> visited'"
    by auto
  from sv nv v' have sin: "(x, y) \<in> set pixels'" by auto
  then have ne: "pixels' \<noteq> []" by auto
  have ff: "flood_fill img target_color tolerance visited x y =
              Inr (visited \<union> set pixels', Some (centroid_of pixels'))"
    using nv m inb run ne v' by (simp add: flood_fill_def pixel_access_in centroid_of_def Let_def)
  have sound: "set pixels' \<subseteq> {q. ((x, y), q) \<in> ?R\<^sup>*}"
  proof
    fix p assume "p \<in> set pixels'"
    with v' sub have "p \<in> visited' - visited" by auto
    with flood_fill_loop_sound [OF run] have "\<exists>q\<in>set [(x, y)]. (q, p) \<in> ?R\<^sup>*" by blast
    then show "p \<in> {q. ((x, y), q) \<in> ?R\<^sup>*}" by simp
  qed
  have reach: "q \<in> visited'" if "((x, y), q) \<in> ?R\<^sup>*" for q
    using that by (induction rule: rtrancl_induct) (use sv closed' in blast)+
  have away: "q \<notin> visited" if "((x, y), q) \<in> ?R\<^sup>*" for q
  proof
    assume qv: "q \<in> visited"
    from that have "(q, (x, y)) \<in> ?R\<^sup>*" by (rule adjacent4_rtrancl_sym)
    then have "(x, y) \<in> visited"
      by (induction rule: rtrancl_induct) (use qv closed in blast)+
    with nv show False by simp
  qed
  have "{q. ((x, y), q) \<in> ?R\<^sup>*} \<subseteq> set pixels'"
    using reach away v' by auto
  with sound have cls: "set pixels' = {q. ((x, y), q) \<in> ?R\<^sup>*}" by auto
  have disj: "set pixels' \<inter> visited = {}" using sub by auto
  from ff ne dist disj cls closed' v' show ?thesis by blast
qed

lemma rtrancl_matching_forward:
  assumes "(p, q) \<in> (adjacent4 img target_color tolerance)\<^sup>*"
    and "p \<in> matching_pixels img target_color tolerance"
  shows "q \<in> matching_pixels img target_color tolerance"
  using assms by (induction rule: rtrancl_induct) (auto dest: adjacent4_matching)

lemma adjacent4_class_eq:
  assumes "(s, p) \<in> (adjacent4 img target_color tolerance)\<^sup>*"
  shows "{q. (p, q) \<in> (adjacent4 img target_color tolerance)\<^sup>*} =
         {q. (s, q) \<in> (adjacent4 img target_color tolerance)\<^sup>*}"
proof -
  from assms have ps: "(p, s) \<in> (adjacent4 img target_color tolerance)\<^sup>*"
    by (rule adjacent4_rtrancl_sym)
  show ?thesis using assms ps by (auto intro: rtrancl_trans)
qed

text \<open>
  The raster scan: the components appended are the summaries of pixel lists, each of which is
  the class of each of its pixels; the lists are pairwise disjoint and cover the matching pixels
  of the scanned coordinates.
\<close>

lemma scan_blobs:
  assumes "set coords \<subseteq> extent img"
    and "\<forall>p\<in>visited. \<forall>q. (p, q) \<in> adjacent4 img target_color tolerance \<longrightarrow> q \<in> visited"
  shows "\<exists>blobs. scan img target_color tolerance coords visited components =
              Inr (visited \<union> (\<Union>ps\<in>set blobs. set ps), components @ map centroid_of blobs) \<and>
            distinct (concat blobs) \<and> (\<Union>ps\<in>set blobs. set ps) \<inter> visited = {} \<and>
            (\<forall>ps\<in>set blobs. ps \<noteq> [] \<and>
               (\<forall>p\<in>set ps. set ps = {q. (p, q) \<in> (adjacent4 img target_color tolerance)\<^sup>*})) \<and>
            (\<forall>p\<in>visited \<union> (\<Union>ps\<in>set blobs. set ps).
               \<forall>q. (p, q) \<in> adjacent4 img target_color tolerance \<longrightarrow>
                 q \<in> visited \<union> (\<Union>ps\<in>set blobs. set ps)) \<and>
            set coords \<inter> matching_pixels img target_color tolerance
              \<subseteq> visited \<union> (\<Union>ps\<in>set blobs. set ps)"
  using assms
proof (induction coords arbitrary: visited components)
  case Nil
  then show ?case by (intro exI [of _ "[]"]) simp
next
  case (Cons c coords)
  let ?M = "matching_pixels img target_color tolerance"
  let ?R = "adjacent4 img target_color tolerance"
  obtain x y where c: "c = (x, y)" by (cases c)
  from Cons.prems(1) c have inx: "(x, y) \<in> extent img" and rest: "set coords \<subseteq> extent img"
    by simp_all
  have inb: "\<not> (x < 0 \<or> x \<ge> width img \<or> y < 0 \<or> y \<ge> height img)"
    using inx by (simp add: extent_def)
  note closed = Cons.prems(2)
  show ?case
  proof (cases "(x, y) \<in> visited")
    case True
    from Cons.IH [OF rest closed, of components]
    obtain blobs where b: "scan img target_color tolerance coords visited components =
              Inr (visited \<union> (\<Union>ps\<in>set blobs. set ps), components @ map centroid_of blobs)"
      "distinct (concat blobs)" "(\<Union>ps\<in>set blobs. set ps) \<inter> visited = {}"
      "\<forall>ps\<in>set blobs. ps \<noteq> [] \<and> (\<forall>p\<in>set ps. set ps = {q. (p, q) \<in> ?R\<^sup>*})"
      "\<forall>p\<in>visited \<union> (\<Union>ps\<in>set blobs. set ps). \<forall>q. (p, q) \<in> ?R \<longrightarrow>
                 q \<in> visited \<union> (\<Union>ps\<in>set blobs. set ps)"
      "set coords \<inter> ?M \<subseteq> visited \<union> (\<Union>ps\<in>set blobs. set ps)"
      by blast
    have "scan img target_color tolerance (c # coords) visited components =
              Inr (visited \<union> (\<Union>ps\<in>set blobs. set ps), components @ map centroid_of blobs)"
      using True c b(1) by simp
    moreover have "set (c # coords) \<inter> ?M \<subseteq> visited \<union> (\<Union>ps\<in>set blobs. set ps)"
      using True c b(6) by auto
    ultimately show ?thesis using b(2-5) by (intro exI [of _ blobs] conjI)
  next
    case nv: False
    show ?thesis
    proof (cases "matches_color target_color tolerance (pixels img (x, y))")
      case False
      then have ff: "flood_fill img target_color tolerance visited x y = Inr (visited, None)"
        using nv inb by (simp add: flood_fill_def pixel_access_in)
      have notM: "(x, y) \<notin> ?M" using False by (simp add: matching_pixels_def)
      from Cons.IH [OF rest closed, of components]
      obtain blobs where b: "scan img target_color tolerance coords visited components =
              Inr (visited \<union> (\<Union>ps\<in>set blobs. set ps), components @ map centroid_of blobs)"
        "distinct (concat blobs)" "(\<Union>ps\<in>set blobs. set ps) \<inter> visited = {}"
        "\<forall>ps\<in>set blobs. ps \<noteq> [] \<and> (\<forall>p\<in>set ps. set ps = {q. (p, q) \<in> ?R\<^sup>*})"
        "\<forall>p\<in>visited \<union> (\<Union>ps\<in>set blobs. set ps). \<forall>q. (p, q) \<in> ?R \<longrightarrow>
                 q \<in> visited \<union> (\<Union>ps\<in>set blobs. set ps)"
        "set coords \<inter> ?M \<subseteq> visited \<union> (\<Union>ps\<in>set blobs. set ps)"
        by blast
      have "scan img target_color tolerance (c # coords) visited components =
              Inr (visited \<union> (\<Union>ps\<in>set blobs. set ps), components @ map centroid_of blobs)"
        using nv c ff b(1) by simp
      moreover have "set (c # coords) \<inter> ?M \<subseteq> visited \<union> (\<Union>ps\<in>set blobs. set ps)"
        using notM c b(6) by auto
      ultimately show ?thesis using b(2-5) by (intro exI [of _ blobs] conjI)
    next
      case True
      then have xyM: "(x, y) \<in> ?M" using inx by (simp add: matching_pixels_def)
      from flood_fill_class [OF xyM nv closed]
      obtain ps where ff: "flood_fill img target_color tolerance visited x y =
              Inr (visited \<union> set ps, Some (centroid_of ps))"
        and ne: "ps \<noteq> []" and dist: "distinct ps" and disj: "set ps \<inter> visited = {}"
        and cls: "set ps = {q. ((x, y), q) \<in> ?R\<^sup>*}"
        and closed': "\<forall>p\<in>visited \<union> set ps. \<forall>q. (p, q) \<in> ?R \<longrightarrow> q \<in> visited \<union> set ps"
        by blast
      from Cons.IH [OF rest closed', of "components @ [centroid_of ps]"]
      obtain blobs where b: "scan img target_color tolerance coords (visited \<union> set ps)
            (components @ [centroid_of ps]) =
              Inr ((visited \<union> set ps) \<union> (\<Union>qs\<in>set blobs. set qs),
                   (components @ [centroid_of ps]) @ map centroid_of blobs)"
        "distinct (concat blobs)" "(\<Union>qs\<in>set blobs. set qs) \<inter> (visited \<union> set ps) = {}"
        "\<forall>qs\<in>set blobs. qs \<noteq> [] \<and> (\<forall>p\<in>set qs. set qs = {q. (p, q) \<in> ?R\<^sup>*})"
        "\<forall>p\<in>(visited \<union> set ps) \<union> (\<Union>qs\<in>set blobs. set qs). \<forall>q. (p, q) \<in> ?R \<longrightarrow>
                 q \<in> (visited \<union> set ps) \<union> (\<Union>qs\<in>set blobs. set qs)"
        "set coords \<inter> ?M \<subseteq> (visited \<union> set ps) \<union> (\<Union>qs\<in>set blobs. set qs)"
        by blast
      have un: "(visited \<union> set ps) \<union> (\<Union>qs\<in>set blobs. set qs) =
                visited \<union> (\<Union>qs\<in>set (ps # blobs). set qs)"
        by auto
      have run: "scan img target_color tolerance (c # coords) visited components =
              Inr (visited \<union> (\<Union>qs\<in>set (ps # blobs). set qs),
                   components @ map centroid_of (ps # blobs))"
        using nv c ff b(1) un by simp
      have d: "distinct (concat (ps # blobs))"
        using dist b(2,3) by auto
      have dj: "(\<Union>qs\<in>set (ps # blobs). set qs) \<inter> visited = {}"
        using disj b(3) by auto
      have psc: "\<forall>p\<in>set ps. set ps = {q. (p, q) \<in> ?R\<^sup>*}"
      proof
        fix p assume "p \<in> set ps"
        with cls have "((x, y), p) \<in> ?R\<^sup>*" by simp
        from adjacent4_class_eq [OF this] cls show "set ps = {q. (p, q) \<in> ?R\<^sup>*}" by simp
      qed
      have cl: "\<forall>qs\<in>set (ps # blobs). qs \<noteq> [] \<and> (\<forall>p\<in>set qs. set qs = {q. (p, q) \<in> ?R\<^sup>*})"
        using ne psc b(4) by simp
      have clo: "\<forall>p\<in>visited \<union> (\<Union>qs\<in>set (ps # blobs). set qs). \<forall>q. (p, q) \<in> ?R \<longrightarrow>
                 q \<in> visited \<union> (\<Union>qs\<in>set (ps # blobs). set qs)"
        using b(5) unfolding un .
      have "(x, y) \<in> set ps" using cls by simp
      then have cov: "set (c # coords) \<inter> ?M \<subseteq> visited \<union> (\<Union>qs\<in>set (ps # blobs). set qs)"
        using c b(6) by auto
      from run d dj cl clo cov show ?thesis by (intro exI [of _ "ps # blobs"] conjI)
    qed
  qed
qed

lemma flood_fill_visited_matching:
  assumes "flood_fill img target_color tolerance visited x y = Inr (visited', r)"
    and "visited \<subseteq> matching_pixels img target_color tolerance"
  shows "visited' \<subseteq> matching_pixels img target_color tolerance"
proof (cases "\<exists>ps. flood_fill_loop img target_color tolerance [(x, y)] visited [] = Inr (visited', ps)")
  case True
  then obtain ps where "flood_fill_loop img target_color tolerance [(x, y)] visited [] = Inr (visited', ps)"
    by blast
  from flood_fill_loop_inv [OF this] assms(2) show ?thesis
    by (auto simp: matching_pixels_def)
next
  case False
  with assms(1) have "visited' = visited"
    by (auto simp: flood_fill_def Let_def split: if_splits sum.splits prod.splits)
  with assms(2) show ?thesis by simp
qed

lemma scan_visited_matching:
  assumes "scan img target_color tolerance coords visited components = Inr (visited', components')"
    and "visited \<subseteq> matching_pixels img target_color tolerance"
  shows "visited' \<subseteq> matching_pixels img target_color tolerance"
  using assms
proof (induction coords arbitrary: visited components)
  case Nil
  then show ?case by simp
next
  case (Cons c coords)
  obtain x y where c: "c = (x, y)" by (cases c)
  show ?case
  proof (cases "(x, y) \<in> visited")
    case True
    with Cons.prems(1) c have "scan img target_color tolerance coords visited components = Inr (visited', components')"
      by simp
    from Cons.IH [OF this Cons.prems(2)] show ?thesis .
  next
    case False
    with Cons.prems(1) c obtain v1 r where ff: "flood_fill img target_color tolerance visited x y = Inr (v1, r)"
      and rest: "scan img target_color tolerance coords v1
          (case r of None \<Rightarrow> components | Some component \<Rightarrow> components @ [component]) = Inr (visited', components')"
      by (auto split: sum.splits option.splits)
    from flood_fill_visited_matching [OF ff Cons.prems(2)]
    have "v1 \<subseteq> matching_pixels img target_color tolerance" .
    from Cons.IH [OF rest this] show ?thesis .
  qed
qed

lemma find_connected_components_blobs:
  "\<exists>blobs. find_connected_components img target_color tolerance = Inr (map centroid_of blobs) \<and>
     distinct (concat blobs) \<and>
     (\<Union>ps\<in>set blobs. set ps) = matching_pixels img target_color tolerance \<and>
     (\<forall>ps\<in>set blobs. ps \<noteq> [] \<and>
        (\<forall>p\<in>set ps. set ps = {q. (p, q) \<in> (adjacent4 img target_color tolerance)\<^sup>*}))"
proof -
  let ?M = "matching_pixels img target_color tolerance"
  let ?R = "adjacent4 img target_color tolerance"
  have r: "set (raster img) \<subseteq> extent img" by (simp add: set_raster)
  have e: "\<forall>p\<in>{}. \<forall>q. (p, q) \<in> ?R \<longrightarrow> q \<in> {}" by simp
  from scan_blobs [OF r e, of "[]"]
  obtain blobs where b: "scan img target_color tolerance (raster img) {} [] =
              Inr ({} \<union> (\<Union>ps\<in>set blobs. set ps), [] @ map centroid_of blobs)"
    "distinct (concat blobs)"
    "\<forall>ps\<in>set blobs. ps \<noteq> [] \<and> (\<forall>p\<in>set ps. set ps = {q. (p, q) \<in> ?R\<^sup>*})"
    "set (raster img) \<inter> ?M \<subseteq> {} \<union> (\<Union>ps\<in>set blobs. set ps)"
    by blast
  have run: "find_connected_components img target_color tolerance = Inr (map centroid_of blobs)"
    using b(1) by (simp add: find_connected_components_def)
  have sub1: "?M \<subseteq> (\<Union>ps\<in>set blobs. set ps)"
    using b(4) by (auto simp: set_raster matching_pixels_def)
  have "{} \<union> (\<Union>ps\<in>set blobs. set ps) \<subseteq> ?M"
    using b(1) by (rule scan_visited_matching) simp
  then have sub2: "(\<Union>ps\<in>set blobs. set ps) \<subseteq> ?M" by simp
  from sub1 sub2 have eq: "(\<Union>ps\<in>set blobs. set ps) = ?M" by (rule subset_antisym [rotated])
  from run b(2) eq b(3) show ?thesis by (intro exI [of _ blobs] conjI)
qed

text \<open>
  Claim C5.  The components the detector returns are the summaries of pixel lists, the blobs,
  which are pairwise disjoint, cover exactly the matching pixels of the image, and each of
  which is the set of pixels joined to any of its pixels by a chain of 4-neighbour steps
  (up, down, left, right) through matching pixels.  So two pixels that no such chain joins,
  such as two pixels, or two larger regions, that touch only at a corner, are never in the same
  blob.  In particular, when the matching pixels of the image are exactly two diagonal
  neighbours, the detector returns exactly two components, one for each pixel, of area 1 and
  centred on the pixel.
\<close>

theorem diagonal_pixels_two_blobs:
  "\<exists>blobs. find_connected_components img target_color tolerance = Inr (map centroid_of blobs) \<and>
     distinct (concat blobs) \<and>
     (\<Union>ps\<in>set blobs. set ps) = matching_pixels img target_color tolerance \<and>
     (\<forall>ps\<in>set blobs. ps \<noteq> [] \<and>
        (\<forall>p\<in>set ps. set ps = {q. (p, q) \<in> (adjacent4 img target_color tolerance)\<^sup>*})) \<and>
     (\<forall>p q. (p, q) \<notin> (adjacent4 img target_color tolerance)\<^sup>* \<longrightarrow>
        \<not> (\<exists>ps\<in>set blobs. p \<in> set ps \<and> q \<in> set ps)) \<and>
     (\<forall>xa ya xb yb. \<bar>xa - xb\<bar> = 1 \<and> \<bar>ya - yb\<bar> = 1 \<and>
        matching_pixels img target_color tolerance = {(xa, ya), (xb, yb)} \<longrightarrow>
        length (map centroid_of blobs) = 2 \<and>
        set (map centroid_of blobs) =
          {(real_of_int xa, real_of_int ya, 1), (real_of_int xb, real_of_int yb, 1)})"
proof -
  let ?M = "matching_pixels img target_color tolerance"
  let ?R = "adjacent4 img target_color tolerance"
  from find_connected_components_blobs [of img target_color tolerance]
  obtain blobs where run: "find_connected_components img target_color tolerance = Inr (map centroid_of blobs)"
    and dist: "distinct (concat blobs)"
    and cover: "(\<Union>ps\<in>set blobs. set ps) = ?M"
    and cls: "\<forall>ps\<in>set blobs. ps \<noteq> [] \<and> (\<forall>p\<in>set ps. set ps = {q. (p, q) \<in> ?R\<^sup>*})"
    by blast
  have apart: "\<forall>p q. (p, q) \<notin> ?R\<^sup>* \<longrightarrow> \<not> (\<exists>ps\<in>set blobs. p \<in> set ps \<and> q \<in> set ps)"
  proof (intro allI impI notI)
    fix p q assume npq: "(p, q) \<notin> ?R\<^sup>*" and "\<exists>ps\<in>set blobs. p \<in> set ps \<and> q \<in> set ps"
    then obtain ps where ps: "ps \<in> set blobs" "p \<in> set ps" "q \<in> set ps" by blast
    from cls ps(1,2) have "set ps = {q. (p, q) \<in> ?R\<^sup>*}" by blast
    with ps(3) npq show False by simp
  qed
  have two: "\<forall>xa ya xb yb. \<bar>xa - xb\<bar> = 1 \<and> \<bar>ya - yb\<bar> = 1 \<and> ?M = {(xa, ya), (xb, yb)} \<longrightarrow>
        length (map centroid_of blobs) = 2 \<and>
        set (map centroid_of blobs) =
          {(real_of_int xa, real_of_int ya, 1), (real_of_int xb, real_of_int yb, 1)}"
  proof (intro allI impI)
    fix xa ya xb yb :: int
    assume h: "\<bar>xa - xb\<bar> = 1 \<and> \<bar>ya - yb\<bar> = 1 \<and> ?M = {(xa, ya), (xb, yb)}"
    then have diag: "\<bar>xa - xb\<bar> = 1 \<and> \<bar>ya - yb\<bar> = 1" and M: "?M = {(xa, ya), (xb, yb)}"
      by simp_all
    have "(xa, ya) \<in> ?M" "(xb, yb) \<in> ?M" using M by simp_all
    then have a: "0 \<le> xa \<and> xa < width img \<and> 0 \<le> ya \<and> ya < height img"
      and b: "0 \<le> xb \<and> xb < width img \<and> 0 \<le> yb \<and> yb < height img"
      by (simp_all add: matching_pixels_def extent_def)
    have only: "\<forall>x y. 0 \<le> x \<and> x < width img \<and> 0 \<le> y \<and> y < height img \<longrightarrow>
                 (matches_color target_color tolerance (pixels img (x, y)) \<longleftrightarrow>
                    (x, y) = (xa, ya) \<or> (x, y) = (xb, yb))"
    proof (intro allI impI)
      fix x y assume "0 \<le> x \<and> x < width img \<and> 0 \<le> y \<and> y < height img"
      then have "(x, y) \<in> extent img" by (simp add: extent_def)
      then have "matches_color target_color tolerance (pixels img (x, y)) \<longleftrightarrow> (x, y) \<in> ?M"
        by (simp add: matching_pixels_def)
      then show "matches_color target_color tolerance (pixels img (x, y)) \<longleftrightarrow>
                    (x, y) = (xa, ya) \<or> (x, y) = (xb, yb)"
        unfolding M by simp
    qed
    from diagonal_pair_only [OF a b diag only] run
    show "length (map centroid_of blobs) = 2 \<and>
        set (map centroid_of blobs) =
          {(real_of_int xa, real_of_int ya, 1), (real_of_int xb, real_of_int yb, 1)}"
      by simp
  qed
  from run dist cover cls apart two show ?thesis
    by (intro exI [of _ blobs] conjI)
qed

lemma corner_bars_components:
  "find_connected_components corner_bars_image [0xDE, 0x1A, 0x03] 25 =
     Inr [(1 / 2, 0, 2), (5 / 2, 1, 2)]"
  by (simp add: corner_bars_image_def detector_eval)

lemma corner_bars_matching:
  "matching_pixels corner_bars_image [0xDE, 0x1A, 0x03] 25 = {(0, 0), (1, 0), (2, 1), (3, 1)}"
  by (auto simp: matching_pixels_def extent_def corner_bars_image_def matches_color_iff
      split: if_splits)

lemma corner_bars_step:
  assumes "(p, q) \<in> adjacent4 corner_bars_image [0xDE, 0x1A, 0x03] 25"
    and "p \<in> {(0, 0), (1, 0)}"
  shows "q \<in> {(0, 0), (1, 0)}"
proof -
  obtain u v where q: "q = (u, v)" by (cases q)
  obtain x y where p: "p = (x, y)" by (cases p)
  from assms(1) p q have qM: "(u, v) \<in> {(0, 0), (1, 0), (2, 1), (3, 1)}"
    and d: "\<bar>x - u\<bar> + \<bar>y - v\<bar> = 1"
    by (simp_all add: adjacent4_def corner_bars_matching)
  from assms(2) p have "(x = 0 \<and> y = 0) \<or> (x = 1 \<and> y = 0)" by simp
  with qM d have "(u = 0 \<and> v = 0) \<or> (u = 1 \<and> v = 0)" by auto
  with q show ?thesis by simp
qed

lemma corner_bars_apart:
  "((1, 0), (2, 1)) \<notin> (adjacent4 corner_bars_image [0xDE, 0x1A, 0x03] 25)\<^sup>*"
proof
  assume "((1, 0), (2, 1)) \<in> (adjacent4 corner_bars_image [0xDE, 0x1A, 0x03] 25)\<^sup>*"
  then have "(2, 1) \<in> {(0, 0), (1::int, 0::int)}"
    by (induction rule: rtrancl_induct) (simp, erule (1) corner_bars_step)
  then show False by simp
qed

theorem diagonal_pixels_two_blobs_witness:
  "find_connected_components corner_bars_image [0xDE, 0x1A, 0x03] 25 =
     Inr [(1 / 2, 0, 2), (5 / 2, 1, 2)] \<and>
   (\<exists>blobs. find_connected_components corner_bars_image [0xDE, 0x1A, 0x03] 25 =
       Inr (map centroid_of blobs) \<and>
     \<not> (\<exists>ps\<in>set blobs. (1, 0) \<in> set ps \<and> (2, 1) \<in> set ps)) \<and>
   (\<exists>components.
      find_connected_components
        \<lparr>width = 2, height = 2,
         pixels = (\<lambda>p. if p = (0, 0) \<or> p = (1, 1) then [0xDE, 0x1A, 0x03] else [0, 0, 0])\<rparr>
        [0xDE, 0x1A, 0x03] 25 = Inr components \<and>
      length components = 2 \<and> set components = {(0, 0, 1), (1, 1, 1)})"
proof -
  let ?img = "\<lparr>width = 2, height = 2,
         pixels = (\<lambda>p. if p = (0, 0) \<or> p = (1, 1) then [0xDE, 0x1A, 0x03] else [0, 0, 0])\<rparr>"
  from diagonal_pixels_two_blobs [of corner_bars_image "[0xDE, 0x1A, 0x03]" 25]
  obtain blobs where run: "find_connected_components corner_bars_image [0xDE, 0x1A, 0x03] 25 =
       Inr (map centroid_of blobs)"
    and apart: "\<forall>p q. (p, q) \<notin> (adjacent4 corner_bars_image [0xDE, 0x1A, 0x03] 25)\<^sup>* \<longrightarrow>
        \<not> (\<exists>ps\<in>set blobs. p \<in> set ps \<and> q \<in> set ps)"
    by blast
  from apart corner_bars_apart
  have "\<not> (\<exists>ps\<in>set blobs. (1, 0) \<in> set ps \<and> (2, 1) \<in> set ps)" by blast
  with run have bars: "\<exists>blobs. find_connected_components corner_bars_image [0xDE, 0x1A, 0x03] 25 =
       Inr (map centroid_of blobs) \<and>
     \<not> (\<exists>ps\<in>set blobs. (1, 0) \<in> set ps \<and> (2, 1) \<in> set ps)"
    by blast
  have M: "matching_pixels ?img [0xDE, 0x1A, 0x03] 25 = {(0, 0), (1, 1)}"
    by (auto simp: matching_pixels_def extent_def matches_color_iff split: if_splits)
  from diagonal_pixels_two_blobs [of ?img "[0xDE, 0x1A, 0x03]" 25]
  obtain blobs2 where run2: "find_connected_components ?img [0xDE, 0x1A, 0x03] 25 =
       Inr (map centroid_of blobs2)"
    and two: "\<forall>xa ya xb yb. \<bar>xa - xb\<bar> = 1 \<and> \<bar>ya - yb\<bar> = 1 \<and>
        matching_pixels ?img [0xDE, 0x1A, 0x03] 25 = {(xa, ya), (xb, yb)} \<longrightarrow>
        length (map centroid_of blobs2) = 2 \<and>
        set (map centroid_of blobs2) =
          {(real_of_int xa, real_of_int ya, 1), (real_of_int xb, real_of_int yb, 1)}"
    by blast
  have "\<bar>0 - 1\<bar> = (1::int) \<and> \<bar>0 - 1\<bar> = (1::int) \<and>
        matching_pixels ?img [0xDE, 0x1A, 0x03] 25 = {(0, 0), (1, 1)}"
    using M by simp
  with two have "length (map centroid_of blobs2) = 2 \<and>
        set (map centroid_of blobs2) =
          {(real_of_int 0, real_of_int 0, 1), (real_of_int 1, real_of_int 1, 1)}"
    by blast
  then have "length (map centroid_of blobs2) = 2 \<and>
        set (map centroid_of blobs2) = {(0, 0, 1), (1, 1, 1)}"
    by simp
  with run2 have diag: "\<exists>components.
      find_connected_components ?img [0xDE, 0x1A, 0x03] 25 = Inr components \<and>
      length components = 2 \<and> set components = {(0, 0, 1), (1, 1, 1)}"
    by blast
  from corner_bars_components bars diag show ?thesis by (intro conjI)
qed

end
